theory Spec2Isabelle
  imports Main "HOL-Library.AList"
begin

section \<open>The path actor of path/path.go\<close>

text \<open>
  A path is the rendezvous point of one publisher and its readers. \<^verbatim>\<open>path.go\<close> runs one
  goroutine per path: \<^verbatim>\<open>run\<close> selects over the request channels and the timers, and each
  branch of the select runs to completion. The model below is that loop body as a function
  from an event and the path to the next path, with every panic of the source as a value.
\<close>

subsection \<open>Data\<close>

text \<open>A \<^verbatim>\<open>*client.Client\<close> is used by the path only as an identity (a map key).\<close>

type_synonym client = nat

text \<open>
  \<^verbatim>\<open>gortsplib.Tracks\<close> is a slice of tracks; the path only takes its length and calls
  \<^verbatim>\<open>Write()\<close> on it. The bytes \<^verbatim>\<open>tracks.Write()\<close> returns are kept symbolic, and a nil
  \<^verbatim>\<open>[]byte\<close> is \<open>None\<close>.
\<close>

type_synonym tracks = "nat list"

datatype sdp = TracksWrite tracks

datatype clientState =
    clientStateWaitingDescribe
  | clientStatePrePlay
  | clientStatePlay
  | clientStatePreRecord
  | clientStateRecord
  | clientStatePreRemove

datatype sourceState =
    sourceStateNotReady
  | sourceStateWaitingDescribe
  | sourceStateReady

text \<open>
  The \<^verbatim>\<open>source\<close> interface holds nil, a client, an external rtsp or rtmp source (built from
  the configured url) or the redirect stub.
\<close>

datatype source =
    NoSource
  | ClientSource client
  | RtspSource string
  | RtmpSource string
  | RedirectSource

fun isSourceExternal :: "source \<Rightarrow> bool" where
  "isSourceExternal (RtspSource u) = True"
| "isSourceExternal (RtmpSource u) = True"
| "isSourceExternal s = False"

text \<open>
  Modelled from the spec: the external command runner is another package ("constructor with
  (template, restart-policy, path name); exposes Close"). A running command is the value
  \<^verbatim>\<open>externalcmd.New(cmd, restart, pathName)\<close> built it from; a closed one is \<open>None\<close>.
\<close>

datatype externalCmd = ExternalCmd string bool string

text \<open>
  Modelled from the spec: \<^verbatim>\<open>conf.PathConf\<close> is declared in another package. The record has
  the fields that path.go reads, which are those of the spec's "Configuration recognized by
  the core"; \<open>Regexp\<close> is "\<^verbatim>\<open>Regexp != nil\<close>" ("non-nil iff the path is dynamic"), and a
  duration is a number.
\<close>

record PathConf =
  Source :: string
  SourceOnDemand :: bool
  SourceOnDemandStartTimeout :: int
  SourceOnDemandCloseAfter :: int
  SourceRedirect :: string
  RunOnInit :: string
  RunOnInitRestart :: bool
  RunOnDemand :: string
  RunOnDemandRestart :: bool
  RunOnDemandStartTimeout :: int
  RunOnDemandCloseAfter :: int
  Regexp :: bool

text \<open>
  The errors path.go builds with \<^verbatim>\<open>fmt.Errorf\<close>, one constructor per format string, with
  the value substituted for the verb; \<open>Error\<close> is the message.
\<close>

datatype error =
    ErrAlreadySubscribed
  | ErrTerminated
  | ErrNoOnePublishing string
  | ErrTrackDoesNotExist int
  | ErrAlreadyPublishing string
  | ErrPublisherTimedOut string

fun digits :: "nat \<Rightarrow> string" where
  "digits n =
     (if n < 10 then [''0123456789'' ! n]
      else digits (n div 10) @ [''0123456789'' ! (n mod 10)])"

definition formatInt :: "int \<Rightarrow> string" where
  "formatInt i = (if i < 0 then ''-'' @ digits (nat (- i)) else digits (nat i))"

fun Error :: "error \<Rightarrow> string" where
  "Error ErrAlreadySubscribed = ''already subscribed''"
| "Error ErrTerminated = ''terminated''"
| "Error (ErrNoOnePublishing p) = ''no one is publishing to path '' @ [CHR 0x27] @ p @ [CHR 0x27]"
| "Error (ErrTrackDoesNotExist n) = ''track '' @ formatInt n @ '' does not exist''"
| "Error (ErrAlreadyPublishing p) =
     ''someone is already publishing to path '' @ [CHR 0x27] @ p @ [CHR 0x27]"
| "Error (ErrPublisherTimedOut p) =
     ''publisher of path '' @ [CHR 0x27] @ p @ [CHR 0x27] @ '' has timed out''"

text \<open>
  What the actor does to the outside: the callbacks on clients and on the parent, and the
  replies on the request channels (a reply with no error carries the path). They are
  appended to \<open>trace\<close> in the order the code performs them.
\<close>

datatype effect =
    OnPathDescribeData client "sdp option" string "error option"
  | OnPathClientClose client
  | ClientDescribeRes client "error option"
  | ClientSetupPlayRes client "error option"
  | ClientAnnounceRes client "error option"
  | ClientPlayRes client
  | ClientRecordRes client
  | ClientRemoveRes client

text \<open>
  The \<^verbatim>\<open>Path\<close> struct. \<open>clients\<close> is the Go map, as an association list with one entry per
  key. \<open>countReaders\<close> and \<open>countPublishers\<close> are \<^verbatim>\<open>stats.CountReaders\<close> and
  \<^verbatim>\<open>stats.CountPublishers\<close> (the counters of the stats package, which the path changes by
  \<^verbatim>\<open>atomic.AddInt64\<close>; they are integers here, far from the 64-bit range). A timer is \<open>Some d\<close> while it is armed with duration \<open>d\<close> and
  \<open>None\<close> when it cannot fire (\<^verbatim>\<open>newEmptyTimer()\<close>, or a timer that has fired).
  Wait groups, channels and logging are left out.
\<close>

record Path =
  conf :: PathConf
  name :: string
  countReaders :: int
  countPublishers :: int
  clients :: "(client \<times> clientState) list"
  source :: source
  sourceTrackCount :: int
  sourceSdp :: "sdp option"
  readers :: "client set"
  onInitCmd :: "externalCmd option"
  onDemandCmd :: "externalCmd option"
  describeTimer :: "int option"
  sourceCloseTimer :: "int option"
  sourceCloseTimerStarted :: bool
  sourceState :: sourceState
  runOnDemandCloseTimer :: "int option"
  runOnDemandCloseTimerStarted :: bool
  closeTimer :: "int option"
  closeTimerStarted :: bool
  trace :: "effect list"

text \<open>
  Modelled from the spec: the readers map (\<^verbatim>\<open>newReadersMap\<close>, \<^verbatim>\<open>add\<close>, \<^verbatim>\<open>remove\<close>) is
  declared in another file of the package. The spec: "A mapping from client identity to an
  active-reader record. Operations: add, remove, forwardFrame". The path adds and removes
  clients; the model keeps the set of clients in the map.
\<close>

definition newReadersMap :: "client set" where
  "newReadersMap = {}"

definition readersAdd :: "client \<Rightarrow> client set \<Rightarrow> client set" where
  "readersAdd c rs = insert c rs"

definition readersRemove :: "client \<Rightarrow> client set \<Rightarrow> client set" where
  "readersRemove c rs = rs - {c}"

text \<open>
  A call either returns or panics. \<open>OutOfFuel\<close> is the third outcome of the functions that
  bound the depth of the recursion of \<^verbatim>\<open>removeClient\<close>. Like a panic it ends every caller
  (\<open>andThen\<close> passes it on), so a call that does not end in \<open>OutOfFuel\<close> has not met the
  bound anywhere; \<open>step_total\<close> below shows that no branch of the loop ends in it.
\<close>

datatype 'a result = Ok 'a | Panic string | OutOfFuel

fun andThen :: "'a result \<Rightarrow> ('a \<Rightarrow> 'b result) \<Rightarrow> 'b result" where
  "andThen (Ok x) f = f x"
| "andThen (Panic m) f = Panic m"
| "andThen OutOfFuel f = OutOfFuel"

definition emit :: "effect \<Rightarrow> Path \<Rightarrow> Path" where
  "emit x pa = pa\<lparr>trace := trace pa @ [x]\<rparr>"

subsection \<open>Helpers of the actor\<close>

text \<open>\<^verbatim>\<open>strings.HasPrefix(s, prefix)\<close>.\<close>

definition HasPrefix :: "string \<Rightarrow> string \<Rightarrow> bool" where
  "HasPrefix s p = (take (length p) s = p)"

definition hasExternalSource :: "Path \<Rightarrow> bool" where
  "hasExternalSource pa =
     (HasPrefix (Source (conf pa)) ''rtsp://'' \<or> HasPrefix (Source (conf pa)) ''rtmp://'')"

definition startExternalSource :: "Path \<Rightarrow> Path" where
  "startExternalSource pa =
     (if HasPrefix (Source (conf pa)) ''rtsp://''
        then pa\<lparr>source := RtspSource (Source (conf pa))\<rparr>
      else if HasPrefix (Source (conf pa)) ''rtmp://''
        then pa\<lparr>source := RtmpSource (Source (conf pa))\<rparr>
      else pa)"

definition hasClients :: "Path \<Rightarrow> bool" where
  "hasClients pa = list_ex (\<lambda>(c, state). state \<noteq> clientStatePreRemove) (clients pa)"

definition hasClientsNotSources :: "Path \<Rightarrow> bool" where
  "hasClientsNotSources pa =
     list_ex (\<lambda>(c, state). state \<noteq> clientStatePreRemove \<and> ClientSource c \<noteq> source pa)
       (clients pa)"

definition addClient :: "client \<Rightarrow> clientState \<Rightarrow> Path \<Rightarrow> Path result" where
  "addClient c state pa =
     (if map_of (clients pa) c \<noteq> None then Panic ''client already added''
      else Ok (pa\<lparr>clients := clients pa @ [(c, state)]\<rparr>))"

subsection \<open>Timer scheduling\<close>

definition scheduleSourceClose :: "Path \<Rightarrow> Path" where
  "scheduleSourceClose pa =
     (if \<not> hasExternalSource pa \<or> \<not> SourceOnDemand (conf pa) \<or> source pa = NoSource then pa
      else if sourceCloseTimerStarted pa \<or> sourceState pa = sourceStateWaitingDescribe
              \<or> hasClients pa then pa
      else pa\<lparr>sourceCloseTimer := Some (SourceOnDemandCloseAfter (conf pa)),
              sourceCloseTimerStarted := True\<rparr>)"

definition scheduleRunOnDemandClose :: "Path \<Rightarrow> Path" where
  "scheduleRunOnDemandClose pa =
     (if RunOnDemand (conf pa) = [] \<or> onDemandCmd pa = None then pa
      else if runOnDemandCloseTimerStarted pa \<or> sourceState pa = sourceStateWaitingDescribe
              \<or> hasClientsNotSources pa then pa
      else pa\<lparr>runOnDemandCloseTimer := Some (RunOnDemandCloseAfter (conf pa)),
              runOnDemandCloseTimerStarted := True\<rparr>)"

definition scheduleClose :: "Path \<Rightarrow> Path" where
  "scheduleClose pa =
     (if closeTimerStarted pa \<or> \<not> Regexp (conf pa) \<or> hasClients pa \<or> source pa \<noteq> NoSource
        then pa
      else pa\<lparr>closeTimer := Some 0, closeTimerStarted := True\<rparr>)"

definition scheduleAll :: "Path \<Rightarrow> Path" where
  "scheduleAll pa = scheduleClose (scheduleRunOnDemandClose (scheduleSourceClose pa))"

subsection \<open>Ranging over the clients\<close>

text \<open>
  \<^verbatim>\<open>for c, state := range pa.clients { body }\<close>. Go visits every key once, in an order it
  does not specify, and reads the value of a key when it reaches it; a key deleted before
  it is reached is not visited. The bodies in path.go change values and never delete, so the
  keys are those at the start of the loop. Here the order is the order of the list; the
  reachable states below are closed under reordering the list, so every order is covered at
  the start of each event.
\<close>

fun forClients ::
  "(client \<Rightarrow> clientState \<Rightarrow> Path \<Rightarrow> Path result) \<Rightarrow> client list \<Rightarrow> Path \<Rightarrow> Path result"
where
  "forClients body [] pa = Ok pa"
| "forClients body (c # cs) pa =
     (case map_of (clients pa) c of
        None \<Rightarrow> forClients body cs pa
      | Some state \<Rightarrow> andThen (body c state pa) (forClients body cs))"

definition rangeClients ::
  "(client \<Rightarrow> clientState \<Rightarrow> Path \<Rightarrow> Path result) \<Rightarrow> Path \<Rightarrow> Path result"
where
  "rangeClients body pa = forClients body (map fst (clients pa)) pa"

subsection \<open>removeClient and onSourceSetNotReady\<close>

text \<open>
  \<^verbatim>\<open>removeClient\<close> calls \<^verbatim>\<open>onSourceSetNotReady\<close> and itself, and \<^verbatim>\<open>onSourceSetNotReady\<close>
  calls \<^verbatim>\<open>removeClient\<close>. The recursion is by depth: \<open>removeClientFuel (Suc n)\<close> makes its
  recursive calls with \<open>n\<close>, and \<open>onSourceSetNotReadyWith\<close> takes the \<^verbatim>\<open>removeClient\<close> it
  calls as an argument. \<^verbatim>\<open>pa.clients[c]\<close> of a missing key is the zero value,
  \<^verbatim>\<open>clientStateWaitingDescribe\<close>, and the assignment then adds the key.
\<close>

definition onSourceSetNotReadyWith ::
  "(client \<Rightarrow> Path \<Rightarrow> Path result) \<Rightarrow> Path \<Rightarrow> Path result"
where
  "onSourceSetNotReadyWith removeClient' pa =
     rangeClients
       (\<lambda>c state pa.
          if state = clientStateWaitingDescribe then Panic ''not possible''
          else if ClientSource c \<noteq> source pa \<and> state \<noteq> clientStatePreRemove
            then andThen (removeClient' c pa) (\<lambda>pa. Ok (emit (OnPathClientClose c) pa))
          else Ok pa)
       (pa\<lparr>sourceState := sourceStateNotReady\<rparr>)"

definition closeReaders ::
  "(client \<Rightarrow> Path \<Rightarrow> Path result) \<Rightarrow> Path \<Rightarrow> Path result"
where
  "closeReaders removeClient' pa =
     rangeClients
       (\<lambda>oc state pa.
          if state \<noteq> clientStatePreRemove \<and> state \<noteq> clientStateWaitingDescribe
            then andThen (removeClient' oc pa) (\<lambda>pa. Ok (emit (OnPathClientClose oc) pa))
          else Ok pa)
       pa"

primrec removeClientFuel :: "nat \<Rightarrow> client \<Rightarrow> Path \<Rightarrow> Path result" where
  "removeClientFuel 0 c pa = OutOfFuel"
| "removeClientFuel (Suc n) c pa =
     (let state = (case map_of (clients pa) c of
                     None \<Rightarrow> clientStateWaitingDescribe | Some st \<Rightarrow> st);
          pa1 = pa\<lparr>clients := AList.update c clientStatePreRemove (clients pa)\<rparr>
      in andThen
           (case state of
              clientStatePlay \<Rightarrow>
                Ok (pa1\<lparr>countReaders := countReaders pa1 - 1, readers := readersRemove c (readers pa1)\<rparr>)
            | clientStateRecord \<Rightarrow>
                onSourceSetNotReadyWith (removeClientFuel n)
                  (pa1\<lparr>countPublishers := countPublishers pa1 - 1\<rparr>)
            | _ \<Rightarrow> Ok pa1)
           (\<lambda>pa2. andThen
              (if source pa2 = ClientSource c
                 then closeReaders (removeClientFuel n) (pa2\<lparr>source := NoSource\<rparr>)
               else Ok pa2)
              (\<lambda>pa3. Ok (scheduleAll pa3))))"

text \<open>
  The calls of the actor: the depth of the recursion is at most the number of clients that
  are not yet in \<^verbatim>\<open>clientStatePreRemove\<close>, so one more than the number of entries is enough.
\<close>

definition removeClient :: "client \<Rightarrow> Path \<Rightarrow> Path result" where
  "removeClient c pa = removeClientFuel (Suc (length (clients pa))) c pa"

definition onSourceSetNotReady :: "Path \<Rightarrow> Path result" where
  "onSourceSetNotReady pa = onSourceSetNotReadyWith removeClient pa"

subsection \<open>Source readiness\<close>

text \<open>"reply to all clients that are waiting for a description".\<close>

definition replyToDescribers :: "Path \<Rightarrow> Path result" where
  "replyToDescribers pa =
     rangeClients
       (\<lambda>c state pa.
          if state = clientStateWaitingDescribe
            then andThen (removeClient c pa)
                   (\<lambda>pa. Ok (emit (OnPathDescribeData c (sourceSdp pa) [] None) pa))
          else Ok pa)
       pa"

definition onSourceSetReady :: "Path \<Rightarrow> Path result" where
  "onSourceSetReady pa =
     (let pa1 = (if sourceState pa = sourceStateWaitingDescribe
                   then pa\<lparr>describeTimer := None\<rparr> else pa);
          pa2 = pa1\<lparr>sourceState := sourceStateReady\<rparr>
      in andThen (replyToDescribers pa2) (\<lambda>pa3. Ok (scheduleAll pa3)))"

subsection \<open>Client requests\<close>

text \<open>"prevent on-demand source from closing" and "prevent on-demand command from closing".\<close>

definition cancelCloseTimers :: "Path \<Rightarrow> Path" where
  "cancelCloseTimers pa =
     (let pa1 = (if sourceCloseTimerStarted pa
                   then pa\<lparr>sourceCloseTimer := None, sourceCloseTimerStarted := False\<rparr>
                 else pa)
      in if runOnDemandCloseTimerStarted pa1
           then pa1\<lparr>runOnDemandCloseTimer := None, runOnDemandCloseTimerStarted := False\<rparr>
         else pa1)"

text \<open>"start on-demand source" and "start on-demand command".\<close>

definition startOnDemandSource :: "Path \<Rightarrow> Path" where
  "startOnDemandSource pa =
     (if hasExternalSource pa \<and> source pa = NoSource
        then (let pa1 = startExternalSource pa
              in if sourceState pa1 \<noteq> sourceStateWaitingDescribe
                   then pa1\<lparr>describeTimer := Some (SourceOnDemandStartTimeout (conf pa1)),
                            sourceState := sourceStateWaitingDescribe\<rparr>
                 else pa1)
      else pa)"

definition startOnDemandCmd :: "Path \<Rightarrow> Path" where
  "startOnDemandCmd pa =
     (if RunOnDemand (conf pa) \<noteq> [] \<and> onDemandCmd pa = None
        then (let pa1 = pa\<lparr>onDemandCmd :=
                             Some (ExternalCmd (RunOnDemand (conf pa))
                                     (RunOnDemandRestart (conf pa)) (name pa))\<rparr>
              in if sourceState pa1 \<noteq> sourceStateWaitingDescribe
                   then pa1\<lparr>describeTimer := Some (RunOnDemandStartTimeout (conf pa1)),
                            sourceState := sourceStateWaitingDescribe\<rparr>
                 else pa1)
      else pa)"

text \<open>The three immediate answers of \<^verbatim>\<open>onClientDescribe\<close> share their first two lines.\<close>

definition describeNow ::
  "client \<Rightarrow> (Path \<Rightarrow> effect) \<Rightarrow> Path \<Rightarrow> Path result"
where
  "describeNow c answer pa =
     andThen (addClient c clientStatePreRemove pa)
       (\<lambda>pa. andThen (removeClient c pa) (\<lambda>pa. Ok (emit (answer pa) pa)))"

definition onClientDescribe :: "client \<Rightarrow> Path \<Rightarrow> Path result" where
  "onClientDescribe c pa0 =
     (let pa = startOnDemandCmd (startOnDemandSource (cancelCloseTimers pa0))
      in if source pa = RedirectSource
           then describeNow c
                  (\<lambda>pa. OnPathDescribeData c None (SourceRedirect (conf pa)) None) pa
         else (case sourceState pa of
                 sourceStateReady \<Rightarrow>
                   describeNow c (\<lambda>pa. OnPathDescribeData c (sourceSdp pa) [] None) pa
               | sourceStateWaitingDescribe \<Rightarrow>
                   addClient c clientStateWaitingDescribe pa
               | sourceStateNotReady \<Rightarrow>
                   describeNow c
                     (\<lambda>pa. OnPathDescribeData c None []
                              (Some (ErrNoOnePublishing (name pa)))) pa))"

text \<open>
  \<^verbatim>\<open>onClientSetupPlay\<close> and \<^verbatim>\<open>onClientAnnounce\<close> return an error and may change the path:
  the model returns both.
\<close>

definition onClientSetupPlay :: "client \<Rightarrow> int \<Rightarrow> Path \<Rightarrow> (error option \<times> Path) result" where
  "onClientSetupPlay c trackId pa =
     (if sourceState pa \<noteq> sourceStateReady then Ok (Some (ErrNoOnePublishing (name pa)), pa)
      else if trackId \<ge> sourceTrackCount pa then Ok (Some (ErrTrackDoesNotExist trackId), pa)
      else if map_of (clients pa) c = None
        then andThen (addClient c clientStatePrePlay (cancelCloseTimers pa))
               (\<lambda>pa. Ok (None, pa))
      else Ok (None, pa))"

definition onClientPlay :: "client \<Rightarrow> Path \<Rightarrow> Path" where
  "onClientPlay c pa =
     (case map_of (clients pa) c of
        None \<Rightarrow> pa
      | Some state \<Rightarrow>
          if state \<noteq> clientStatePrePlay then pa
          else pa\<lparr>countReaders := countReaders pa + 1,
                  clients := AList.update c clientStatePlay (clients pa),
                  readers := readersAdd c (readers pa)\<rparr>)"

definition onClientAnnounce ::
  "client \<Rightarrow> tracks \<Rightarrow> Path \<Rightarrow> (error option \<times> Path) result"
where
  "onClientAnnounce c ts pa =
     (if map_of (clients pa) c \<noteq> None then Ok (Some ErrAlreadySubscribed, pa)
      else if source pa \<noteq> NoSource \<or> hasExternalSource pa
        then Ok (Some (ErrAlreadyPublishing (name pa)), pa)
      else andThen (addClient c clientStatePreRecord pa)
             (\<lambda>pa. Ok (None, pa\<lparr>source := ClientSource c,
                                 sourceTrackCount := int (length ts),
                                 sourceSdp := Some (TracksWrite ts)\<rparr>)))"

definition onClientRecord :: "client \<Rightarrow> Path \<Rightarrow> Path result" where
  "onClientRecord c pa =
     (case map_of (clients pa) c of
        None \<Rightarrow> Ok pa
      | Some state \<Rightarrow>
          if state \<noteq> clientStatePreRecord then Ok pa
          else onSourceSetReady
                 (pa\<lparr>countPublishers := countPublishers pa + 1,
                     clients := AList.update c clientStateRecord (clients pa)\<rparr>))"

subsection \<open>The event loop\<close>

text \<open>\<^verbatim>\<open>New\<close>, and the lines of \<^verbatim>\<open>run\<close> before the loop.\<close>

definition New :: "PathConf \<Rightarrow> string \<Rightarrow> Path" where
  "New cf nm =
     \<lparr>conf = cf, name = nm, countReaders = 0, countPublishers = 0, clients = [],
      source = NoSource, sourceTrackCount = 0, sourceSdp = None, readers = newReadersMap,
      onInitCmd = None, onDemandCmd = None, describeTimer = None, sourceCloseTimer = None,
      sourceCloseTimerStarted = False, sourceState = sourceStateNotReady,
      runOnDemandCloseTimer = None, runOnDemandCloseTimerStarted = False,
      closeTimer = None, closeTimerStarted = False, trace = []\<rparr>"

definition runInit :: "Path \<Rightarrow> Path" where
  "runInit pa =
     (let pa1 = (if Source (conf pa) = ''redirect'' then pa\<lparr>source := RedirectSource\<rparr>
                 else if hasExternalSource pa \<and> \<not> SourceOnDemand (conf pa)
                   then startExternalSource pa
                 else pa)
      in if RunOnInit (conf pa1) \<noteq> []
           then pa1\<lparr>onInitCmd := Some (ExternalCmd (RunOnInit (conf pa1))
                                         (RunOnInitRestart (conf pa1)) (name pa1))\<rparr>
         else pa1)"

text \<open>
  The branches of the select that stay in the loop. \<^verbatim>\<open>OnSourceSetReady(tracks)\<close> stores the
  description and the track count and then signals, so the event carries the tracks.
  The close timer and \<^verbatim>\<open>terminate\<close> leave the loop and are not events here.
\<close>

datatype event =
    DescribeTimer
  | SourceCloseTimer
  | RunOnDemandCloseTimer
  | SourceSetReady tracks
  | SourceSetNotReady
  | ClientDescribe client
  | ClientSetupPlay client int
  | ClientPlay client
  | ClientAnnounce client tracks
  | ClientRecord client
  | ClientRemove client

text \<open>The loop of the describe timer branch, and the branch.\<close>

definition timeOutDescribers :: "Path \<Rightarrow> Path result" where
  "timeOutDescribers pa =
     rangeClients
       (\<lambda>c state pa.
          if state = clientStateWaitingDescribe
            then andThen (removeClient c pa)
                   (\<lambda>pa. Ok (emit (OnPathDescribeData c None []
                                     (Some (ErrPublisherTimedOut (name pa)))) pa))
          else Ok pa)
       pa"

definition onDescribeTimer :: "Path \<Rightarrow> Path result" where
  "onDescribeTimer pa =
     andThen (timeOutDescribers (pa\<lparr>describeTimer := None\<rparr>))
       (\<lambda>pa. Ok (scheduleAll (pa\<lparr>sourceState := sourceStateNotReady\<rparr>)))"

definition onSourceCloseTimer :: "Path \<Rightarrow> Path result" where
  "onSourceCloseTimer pa =
     (let pa1 = pa\<lparr>sourceCloseTimer := None, sourceCloseTimerStarted := False\<rparr>
      in if isSourceExternal (source pa1)
           then Ok (scheduleClose (pa1\<lparr>source := NoSource\<rparr>))
         else Panic ''interface conversion'')"

definition onRunOnDemandCloseTimer :: "Path \<Rightarrow> Path result" where
  "onRunOnDemandCloseTimer pa =
     (let pa1 = pa\<lparr>runOnDemandCloseTimer := None, runOnDemandCloseTimerStarted := False\<rparr>
      in if onDemandCmd pa1 = None then Panic ''nil pointer dereference''
         else Ok (scheduleClose (pa1\<lparr>onDemandCmd := None\<rparr>)))"

definition onClientRemove :: "client \<Rightarrow> Path \<Rightarrow> Path result" where
  "onClientRemove c pa =
     (case map_of (clients pa) c of
        None \<Rightarrow> Ok (emit (ClientRemoveRes c) pa)
      | Some state \<Rightarrow>
          andThen (if state \<noteq> clientStatePreRemove then removeClient c pa else Ok pa)
            (\<lambda>pa. Ok (emit (ClientRemoveRes c)
                         (pa\<lparr>clients := AList.delete c (clients pa)\<rparr>))))"

fun step :: "event \<Rightarrow> Path \<Rightarrow> Path result" where
  "step DescribeTimer pa = onDescribeTimer pa"
| "step SourceCloseTimer pa = onSourceCloseTimer pa"
| "step RunOnDemandCloseTimer pa = onRunOnDemandCloseTimer pa"
| "step (SourceSetReady ts) pa =
     onSourceSetReady (pa\<lparr>sourceSdp := Some (TracksWrite ts),
                          sourceTrackCount := int (length ts)\<rparr>)"
| "step SourceSetNotReady pa = onSourceSetNotReady pa"
| "step (ClientDescribe c) pa =
     (if map_of (clients pa) c \<noteq> None
        then Ok (emit (ClientDescribeRes c (Some ErrAlreadySubscribed)) pa)
      else onClientDescribe c (emit (ClientDescribeRes c None) pa))"
| "step (ClientSetupPlay c trackId) pa =
     andThen (onClientSetupPlay c trackId pa)
       (\<lambda>(err, pa). Ok (emit (ClientSetupPlayRes c err) pa))"
| "step (ClientPlay c) pa = Ok (emit (ClientPlayRes c) (onClientPlay c pa))"
| "step (ClientAnnounce c ts) pa =
     andThen (onClientAnnounce c ts pa)
       (\<lambda>(err, pa). Ok (emit (ClientAnnounceRes c err) pa))"
| "step (ClientRecord c) pa =
     andThen (onClientRecord c pa) (\<lambda>pa. Ok (emit (ClientRecordRes c) pa))"
| "step (ClientRemove c) pa = onClientRemove c pa"

text \<open>A timer branch is taken only when its timer can fire.\<close>

fun enabled :: "event \<Rightarrow> Path \<Rightarrow> bool" where
  "enabled DescribeTimer pa = (describeTimer pa \<noteq> None)"
| "enabled SourceCloseTimer pa = (sourceCloseTimer pa \<noteq> None)"
| "enabled RunOnDemandCloseTimer pa = (runOnDemandCloseTimer pa \<noteq> None)"
| "enabled ev pa = True"

text \<open>
  The states of the actor at the head of the loop, for a configuration and a name: the
  state after the first lines of \<^verbatim>\<open>run\<close>, what an enabled event that does not panic makes of
  a reachable state, and a reachable state with its clients listed in another order.
\<close>

inductive reachable :: "PathConf \<Rightarrow> string \<Rightarrow> Path \<Rightarrow> bool" for cf :: PathConf and nm :: string
where
  reach_init: "reachable cf nm (runInit (New cf nm))"
| reach_step: "reachable cf nm pa \<Longrightarrow> enabled ev pa \<Longrightarrow> step ev pa = Ok pa' \<Longrightarrow> reachable cf nm pa'"
| reach_order: "reachable cf nm pa \<Longrightarrow> set cs = set (clients pa) \<Longrightarrow> distinct (map fst cs)
     \<Longrightarrow> reachable cf nm (pa\<lparr>clients := cs\<rparr>)"

text \<open>A run of the loop over a list of events, from a given state.\<close>

fun runs :: "event list \<Rightarrow> Path \<Rightarrow> Path option" where
  "runs [] pa = Some pa"
| "runs (ev # evs) pa =
     (if enabled ev pa then (case step ev pa of Ok pa' \<Rightarrow> runs evs pa' | _ \<Rightarrow> None)
      else None)"


subsection \<open>Invariants of the loop\<close>

text \<open>
  The publisher: a client in \<^verbatim>\<open>clientStatePreRecord\<close> or \<^verbatim>\<open>clientStateRecord\<close> is the source,
  a source that is a client is in one of these two states, and a path with an external
  source never has a client as its source.
\<close>

definition isPublisher :: "clientState \<Rightarrow> bool" where
  "isPublisher st = (st = clientStatePreRecord \<or> st = clientStateRecord)"

definition invSource :: "Path \<Rightarrow> bool" where
  "invSource pa =
     ((\<forall>c st. map_of (clients pa) c = Some st \<longrightarrow> isPublisher st \<longrightarrow> source pa = ClientSource c)
      \<and> (\<forall>c. source pa = ClientSource c
             \<longrightarrow> (\<exists>st. map_of (clients pa) c = Some st \<and> isPublisher st))
      \<and> (hasExternalSource pa \<longrightarrow> (\<forall>c. source pa \<noteq> ClientSource c)))"

text \<open>Clients wait for a description only while the source state is waiting.\<close>

definition invWaiting :: "Path \<Rightarrow> bool" where
  "invWaiting pa =
     (\<forall>c. map_of (clients pa) c = Some clientStateWaitingDescribe
          \<longrightarrow> sourceState pa = sourceStateWaitingDescribe)"

text \<open>The precondition of the source close timer, and its invariant.\<close>

definition sourceCloseAllowed :: "Path \<Rightarrow> bool" where
  "sourceCloseAllowed pa =
     (hasExternalSource pa \<and> SourceOnDemand (conf pa) \<and> source pa \<noteq> NoSource
      \<and> \<not> hasClients pa \<and> sourceState pa \<noteq> sourceStateWaitingDescribe)"

definition invSourceClose :: "Path \<Rightarrow> bool" where
  "invSourceClose pa =
     ((sourceCloseTimer pa \<noteq> None \<longrightarrow> sourceCloseTimerStarted pa)
      \<and> (sourceCloseTimerStarted pa \<longrightarrow> sourceCloseAllowed pa))"

text \<open>The description and the track count are stored together, and before readiness.\<close>

definition invSdp :: "Path \<Rightarrow> bool" where
  "invSdp pa =
     ((sourceSdp pa = None \<and> sourceTrackCount pa = 0
       \<or> (\<exists>ts. sourceSdp pa = Some (TracksWrite ts) \<and> sourceTrackCount pa = int (length ts)))
      \<and> (sourceSdp pa = None \<longrightarrow>
            sourceState pa \<noteq> sourceStateReady
            \<and> (\<forall>c. map_of (clients pa) c \<noteq> Some clientStatePreRecord)))"

definition pathInv :: "Path \<Rightarrow> bool" where
  "pathInv pa =
     (distinct (map fst (clients pa)) \<and> invSource pa \<and> invWaiting pa \<and> invSourceClose pa
      \<and> invSdp pa)"

text \<open>
  What a call of \<^verbatim>\<open>removeClient\<close> or \<^verbatim>\<open>onSourceSetNotReady\<close> that returns can have done to
  the path: keys are kept, a state changes only to \<^verbatim>\<open>clientStatePreRemove\<close>, the source
  changes only from a removed client to nil, and the source state changes only to not
  ready, with no client left waiting.
\<close>

definition evolves :: "Path \<Rightarrow> Path \<Rightarrow> bool" where
  "evolves pa pa' =
     (conf pa' = conf pa \<and> name pa' = name pa \<and> sourceSdp pa' = sourceSdp pa
      \<and> sourceTrackCount pa' = sourceTrackCount pa \<and> describeTimer pa' = describeTimer pa
      \<and> onDemandCmd pa' = onDemandCmd pa
      \<and> (distinct (map fst (clients pa)) \<longrightarrow> distinct (map fst (clients pa')))
      \<and> (\<forall>k. map_of (clients pa) k \<noteq> None \<longrightarrow> map_of (clients pa') k \<noteq> None)
      \<and> (\<forall>k st. map_of (clients pa') k = Some st
             \<longrightarrow> st = clientStatePreRemove \<or> map_of (clients pa) k = Some st)
      \<and> (source pa' = source pa
           \<or> source pa' = NoSource
             \<and> (\<exists>k. source pa = ClientSource k
                    \<and> map_of (clients pa') k = Some clientStatePreRemove))
      \<and> (sourceState pa' = sourceState pa
           \<or> sourceState pa' = sourceStateNotReady
             \<and> (\<forall>k. map_of (clients pa') k \<noteq> Some clientStateWaitingDescribe)))"

text \<open>A source that is still a client after such a call has kept its state.\<close>

definition keepsSource :: "Path \<Rightarrow> Path \<Rightarrow> bool" where
  "keepsSource pa pa' =
     (\<forall>k. source pa' = ClientSource k \<longrightarrow> map_of (clients pa') k = map_of (clients pa) k)"

text \<open>The number of clients that are not yet removed bounds the depth of the recursion.\<close>

definition active :: "(client \<times> clientState) list \<Rightarrow> nat" where
  "active cs = length (filter (\<lambda>(c, state). state \<noteq> clientStatePreRemove) cs)"

text \<open>The describe callbacks made to a client.\<close>

fun describeDataFor :: "client \<Rightarrow> effect \<Rightarrow> bool" where
  "describeDataFor c (OnPathDescribeData c' s u e) = (c = c')"
| "describeDataFor c x = False"

subsection \<open>Configurations and states used as examples\<close>

text \<open>The configuration of a path fed by publishers, with nothing on demand.\<close>

definition confRecord :: PathConf where
  "confRecord =
     \<lparr>Source = ''record'', SourceOnDemand = False, SourceOnDemandStartTimeout = 10,
      SourceOnDemandCloseAfter = 10, SourceRedirect = [], RunOnInit = [],
      RunOnInitRestart = False, RunOnDemand = [], RunOnDemandRestart = False,
      RunOnDemandStartTimeout = 10, RunOnDemandCloseAfter = 10, Regexp = False\<rparr>"

definition after :: "event list \<Rightarrow> Path \<Rightarrow> Path" where
  "after evs pa = (case runs evs pa of Some pa' \<Rightarrow> pa' | None \<Rightarrow> pa)"

text \<open>A path with an on-demand command, and a path with an on-demand rtsp source.\<close>

definition confOnDemandCmd :: PathConf where
  "confOnDemandCmd = confRecord\<lparr>RunOnDemand := ''cmd''\<rparr>"

definition confOnDemandSource :: PathConf where
  "confOnDemandSource = confRecord\<lparr>Source := ''rtsp://example/s'', SourceOnDemand := True\<rparr>"

text \<open>Client 1 has announced one track and records.\<close>

definition paPublishing :: Path where
  "paPublishing = after [ClientAnnounce 1 [7], ClientRecord 1] (runInit (New confRecord ''p''))"


text \<open>
  On a path with an on-demand command, client 1 records before anyone has described, and
  client 2 then describes.
\<close>

definition paDescribedWhileRecording :: Path where
  "paDescribedWhileRecording =
     after [ClientAnnounce 1 [7], ClientRecord 1, ClientDescribe 2]
       (runInit (New confOnDemandCmd ''p''))"

text \<open>On a path with an on-demand source, clients 1 and 2 describe and wait.\<close>

definition paTwoWaiting :: Path where
  "paTwoWaiting =
     after [ClientDescribe 1, ClientDescribe 2] (runInit (New confOnDemandSource ''p''))"

text \<open>
  On a path with an on-demand source, client 1 has described and the source has become
  ready: client 1 is answered and nobody is left.
\<close>

definition paSourceIdle :: Path where
  "paSourceIdle =
     after [ClientDescribe 1, SourceSetReady [7]] (runInit (New confOnDemandSource ''p''))"

text \<open>
  While client 1 records, client 2 describes, sets up track 0 and plays, and sends no
  \<^verbatim>\<open>clientRemove\<close> in between.
\<close>

definition paDescribedThenPlayed :: Path where
  "paDescribedThenPlayed =
     after [ClientDescribe 2, ClientSetupPlay 2 0, ClientPlay 2] paPublishing"

definition paReadyOneTrack :: Path where
  "paReadyOneTrack =
     (New confRecord ''p'')\<lparr>sourceState := sourceStateReady, sourceTrackCount := 1\<rparr>"

text \<open>
  On a path with an on-demand command, client 2 describes: the command is started and the
  client waits for the publisher. Client 1 then announces one track.
\<close>

definition paWaitingForCmd :: Path where
  "paWaitingForCmd = after [ClientDescribe 2] (runInit (New confOnDemandCmd ''p''))"

definition paAnnouncedWhileWaiting :: Path where
  "paAnnouncedWhileWaiting = after [ClientAnnounce 1 [7]] paWaitingForCmd"

section \<open>Properties\<close>

subsection \<open>Results, frames and loops\<close>

lemma andThen_Ok_iff: "andThen m f = Ok y \<longleftrightarrow> (\<exists>x. m = Ok x \<and> f x = Ok y)"
  by (cases m) auto

lemma andThen_OutOfFuel_iff:
  "andThen m f = OutOfFuel \<longleftrightarrow> m = OutOfFuel \<or> (\<exists>x. m = Ok x \<and> f x = OutOfFuel)"
  by (cases m) auto

lemma scheduleAll_frame [simp]:
  "clients (scheduleAll pa) = clients pa"
  "source (scheduleAll pa) = source pa"
  "sourceState (scheduleAll pa) = sourceState pa"
  "conf (scheduleAll pa) = conf pa"
  "name (scheduleAll pa) = name pa"
  "sourceSdp (scheduleAll pa) = sourceSdp pa"
  "sourceTrackCount (scheduleAll pa) = sourceTrackCount pa"
  "describeTimer (scheduleAll pa) = describeTimer pa"
  "onDemandCmd (scheduleAll pa) = onDemandCmd pa"
  "trace (scheduleAll pa) = trace pa"
  "countReaders (scheduleAll pa) = countReaders pa"
  "countPublishers (scheduleAll pa) = countPublishers pa"
  "readers (scheduleAll pa) = readers pa"
  by (simp_all add: scheduleAll_def scheduleClose_def scheduleRunOnDemandClose_def
      scheduleSourceClose_def)

lemma emit_frame [simp]:
  "clients (emit x pa) = clients pa"
  "source (emit x pa) = source pa"
  "sourceState (emit x pa) = sourceState pa"
  "conf (emit x pa) = conf pa"
  "name (emit x pa) = name pa"
  "sourceSdp (emit x pa) = sourceSdp pa"
  "sourceTrackCount (emit x pa) = sourceTrackCount pa"
  "describeTimer (emit x pa) = describeTimer pa"
  "onDemandCmd (emit x pa) = onDemandCmd pa"
  "trace (emit x pa) = trace pa @ [x]"
  "countReaders (emit x pa) = countReaders pa"
  "countPublishers (emit x pa) = countPublishers pa"
  "readers (emit x pa) = readers pa"
  "sourceCloseTimer (emit x pa) = sourceCloseTimer pa"
  "sourceCloseTimerStarted (emit x pa) = sourceCloseTimerStarted pa"
  by (simp_all add: emit_def)

lemma forClients_rule:
  assumes "forClients body ks pa = Ok pa'" and "I pa"
    and "\<And>c st p p'. I p \<Longrightarrow> map_of (clients p) c = Some st \<Longrightarrow> c \<in> set ks
           \<Longrightarrow> body c st p = Ok p' \<Longrightarrow> I p'"
  shows "I pa'"
  using assms
proof (induction ks arbitrary: pa)
  case Nil
  then show ?case by simp
next
  case (Cons k ks)
  have step: "\<And>c st p p'. I p \<Longrightarrow> map_of (clients p) c = Some st \<Longrightarrow> c \<in> set ks
           \<Longrightarrow> body c st p = Ok p' \<Longrightarrow> I p'"
  proof -
    fix c st p p'
    assume a: "I p" "map_of (clients p) c = Some st" "c \<in> set ks" "body c st p = Ok p'"
    from a(3) have "c \<in> set (k # ks)" by simp
    from Cons.prems(3) [OF a(1) a(2) this a(4)] show "I p'" .
  qed
  show ?case
  proof (cases "map_of (clients pa) k")
    case None
    with Cons.prems(1) have fc: "forClients body ks pa = Ok pa'" by simp
    show ?thesis by (rule Cons.IH [OF fc Cons.prems(2) step])
  next
    case (Some st)
    with Cons.prems(1) obtain p where p: "body k st pa = Ok p" "forClients body ks p = Ok pa'"
      by (auto simp: andThen_Ok_iff)
    have "k \<in> set (k # ks)" by simp
    from Cons.prems(3) [OF Cons.prems(2) Some this p(1)] have "I p" .
    show ?thesis by (rule Cons.IH [OF p(2) \<open>I p\<close> step])
  qed
qed

lemma rangeClients_rule:
  assumes "rangeClients body pa = Ok pa'" and "I pa"
    and "\<And>c st p p'. I p \<Longrightarrow> map_of (clients p) c = Some st
           \<Longrightarrow> body c st p = Ok p' \<Longrightarrow> I p'"
  shows "I pa'"
  using assms unfolding rangeClients_def by (rule forClients_rule)

subsection \<open>What a removal can change\<close>

lemma evolves_refl [simp]: "evolves pa pa"
  by (simp add: evolves_def)

lemma evolves_fields:
  assumes "evolves pa pa'"
  shows "conf pa' = conf pa" "name pa' = name pa" "sourceSdp pa' = sourceSdp pa"
    "sourceTrackCount pa' = sourceTrackCount pa" "describeTimer pa' = describeTimer pa"
    "onDemandCmd pa' = onDemandCmd pa"
  using assms by (simp_all add: evolves_def)

lemma evolves_distinct:
  "evolves pa pa' \<Longrightarrow> distinct (map fst (clients pa)) \<Longrightarrow> distinct (map fst (clients pa'))"
  by (simp add: evolves_def)

lemma evolves_keys:
  "evolves pa pa' \<Longrightarrow> map_of (clients pa) k \<noteq> None \<Longrightarrow> map_of (clients pa') k \<noteq> None"
  by (simp add: evolves_def)

lemma evolves_state:
  "evolves pa pa' \<Longrightarrow> map_of (clients pa') k = Some st
     \<Longrightarrow> st = clientStatePreRemove \<or> map_of (clients pa) k = Some st"
  by (simp add: evolves_def)

lemma evolves_PreRemove:
  assumes "evolves pa pa'" and "map_of (clients pa) k = Some clientStatePreRemove"
  shows "map_of (clients pa') k = Some clientStatePreRemove"
proof -
  from evolves_keys [OF assms(1), of k] assms(2)
  obtain st where st: "map_of (clients pa') k = Some st" by auto
  from evolves_state [OF assms(1) st] assms(2) st show ?thesis by auto
qed

lemma evolves_source:
  "evolves pa pa' \<Longrightarrow> source pa' = source pa
     \<or> source pa' = NoSource
       \<and> (\<exists>k. source pa = ClientSource k \<and> map_of (clients pa') k = Some clientStatePreRemove)"
  by (simp add: evolves_def)

lemma evolves_sourceState:
  "evolves pa pa' \<Longrightarrow> sourceState pa' = sourceState pa
     \<or> sourceState pa' = sourceStateNotReady
       \<and> (\<forall>k. map_of (clients pa') k \<noteq> Some clientStateWaitingDescribe)"
  by (simp add: evolves_def)

lemma evolves_notWaiting:
  assumes "evolves pa pa'" and "map_of (clients pa) k \<noteq> Some clientStateWaitingDescribe"
  shows "map_of (clients pa') k \<noteq> Some clientStateWaitingDescribe"
  using evolves_state [OF assms(1), of k clientStateWaitingDescribe] assms(2) by auto

lemma evolvesI:
  assumes "conf pa' = conf pa" "name pa' = name pa" "sourceSdp pa' = sourceSdp pa"
    "sourceTrackCount pa' = sourceTrackCount pa" "describeTimer pa' = describeTimer pa"
    "onDemandCmd pa' = onDemandCmd pa"
    and "distinct (map fst (clients pa)) \<Longrightarrow> distinct (map fst (clients pa'))"
    and "\<And>k. map_of (clients pa) k \<noteq> None \<Longrightarrow> map_of (clients pa') k \<noteq> None"
    and "\<And>k st. map_of (clients pa') k = Some st
           \<Longrightarrow> st = clientStatePreRemove \<or> map_of (clients pa) k = Some st"
    and "source pa' = source pa
         \<or> source pa' = NoSource
           \<and> (\<exists>k. source pa = ClientSource k
                 \<and> map_of (clients pa') k = Some clientStatePreRemove)"
    and "sourceState pa' = sourceState pa
         \<or> sourceState pa' = sourceStateNotReady
           \<and> (\<forall>k. map_of (clients pa') k \<noteq> Some clientStateWaitingDescribe)"
  shows "evolves pa pa'"
  unfolding evolves_def using assms by blast

lemma evolves_trans:
  assumes ab: "evolves pa pb" and bc: "evolves pb pc"
  shows "evolves pa pc"
proof (rule evolvesI)
  show "conf pc = conf pa" "name pc = name pa" "sourceSdp pc = sourceSdp pa"
    "sourceTrackCount pc = sourceTrackCount pa" "describeTimer pc = describeTimer pa"
    "onDemandCmd pc = onDemandCmd pa"
    using evolves_fields [OF ab] evolves_fields [OF bc] by simp_all
  show "distinct (map fst (clients pa)) \<Longrightarrow> distinct (map fst (clients pc))"
    using evolves_distinct [OF ab] evolves_distinct [OF bc] by simp
  show "\<And>k. map_of (clients pa) k \<noteq> None \<Longrightarrow> map_of (clients pc) k \<noteq> None"
    using evolves_keys [OF ab] evolves_keys [OF bc] by simp
  show "\<And>k st. map_of (clients pc) k = Some st
           \<Longrightarrow> st = clientStatePreRemove \<or> map_of (clients pa) k = Some st"
    using evolves_state [OF ab] evolves_state [OF bc] by blast
  show "source pc = source pa
         \<or> source pc = NoSource
           \<and> (\<exists>k. source pa = ClientSource k
                 \<and> map_of (clients pc) k = Some clientStatePreRemove)"
  proof (cases "source pb = source pa")
    case True
    then show ?thesis using evolves_source [OF bc] by simp
  next
    case False
    then obtain k where k: "source pb = NoSource" "source pa = ClientSource k"
      "map_of (clients pb) k = Some clientStatePreRemove"
      using evolves_source [OF ab] by auto
    have "source pc = NoSource" using evolves_source [OF bc] k(1) by auto
    moreover have "map_of (clients pc) k = Some clientStatePreRemove"
      using evolves_PreRemove [OF bc k(3)] .
    ultimately show ?thesis using k(2) by simp
  qed
  show "sourceState pc = sourceState pa
         \<or> sourceState pc = sourceStateNotReady
           \<and> (\<forall>k. map_of (clients pc) k \<noteq> Some clientStateWaitingDescribe)"
  proof (cases "sourceState pb = sourceState pa")
    case True
    then show ?thesis using evolves_sourceState [OF bc] by simp
  next
    case False
    then have b: "sourceState pb = sourceStateNotReady"
      "\<forall>k. map_of (clients pb) k \<noteq> Some clientStateWaitingDescribe"
      using evolves_sourceState [OF ab] by auto
    have "\<forall>k. map_of (clients pc) k \<noteq> Some clientStateWaitingDescribe"
      using evolves_notWaiting [OF bc] b(2) by simp
    moreover have "sourceState pc = sourceStateNotReady"
      using evolves_sourceState [OF bc] b(1) by auto
    ultimately show ?thesis by simp
  qed
qed


lemma forClients_visits:
  assumes "forClients body ks pa = Ok pa'" and "k \<in> set ks"
    and none: "\<And>p. map_of (clients p) k = None \<Longrightarrow> Q p"
    and est: "\<And>st p p'. map_of (clients p) k = Some st \<Longrightarrow> body k st p = Ok p' \<Longrightarrow> Q p'"
    and pres: "\<And>c st p p'. Q p \<Longrightarrow> map_of (clients p) c = Some st \<Longrightarrow> body c st p = Ok p'
                 \<Longrightarrow> Q p'"
  shows "Q pa'"
  using assms(1,2)
proof (induction ks arbitrary: pa)
  case Nil
  then show ?case by simp
next
  case (Cons k' ks)
  have keep: "\<And>p. Q p \<Longrightarrow> forClients body ks p = Ok pa' \<Longrightarrow> Q pa'"
  proof -
    fix p assume q: "Q p" and fc: "forClients body ks p = Ok pa'"
    show "Q pa'"
      by (rule forClients_rule [where I = Q, OF fc q]) (rule pres)
  qed
  show ?case
  proof (cases "map_of (clients pa) k'")
    case None
    with Cons.prems(1) have fc: "forClients body ks pa = Ok pa'" by simp
    show ?thesis
    proof (cases "k = k'")
      case True
      with None have "Q pa" using none by simp
      then show ?thesis using keep fc by simp
    next
      case False
      with Cons.prems(2) have "k \<in> set ks" by simp
      then show ?thesis using Cons.IH [OF fc] by simp
    qed
  next
    case (Some st)
    with Cons.prems(1) obtain p where p: "body k' st pa = Ok p" "forClients body ks p = Ok pa'"
      by (auto simp: andThen_Ok_iff)
    show ?thesis
    proof (cases "k = k'")
      case True
      with Some p(1) have "Q p" using est by simp
      then show ?thesis using keep p(2) by simp
    next
      case False
      with Cons.prems(2) have "k \<in> set ks" by simp
      then show ?thesis using Cons.IH [OF p(2)] by simp
    qed
  qed
qed

lemma map_of_keys: "map_of al k = Some v \<Longrightarrow> k \<in> set (map fst al)"
  by (induction al) (auto split: if_splits)

lemma rangeClients_visits:
  assumes "rangeClients body pa = Ok pa'" and "map_of (clients pa) k \<noteq> None"
    and none: "\<And>p. map_of (clients p) k = None \<Longrightarrow> Q p"
    and est: "\<And>st p p'. map_of (clients p) k = Some st \<Longrightarrow> body k st p = Ok p' \<Longrightarrow> Q p'"
    and pres: "\<And>c st p p'. Q p \<Longrightarrow> map_of (clients p) c = Some st \<Longrightarrow> body c st p = Ok p'
                 \<Longrightarrow> Q p'"
  shows "Q pa'"
proof -
  from assms(2) obtain v where "map_of (clients pa) k = Some v" by auto
  then have k: "k \<in> set (map fst (clients pa))" by (rule map_of_keys)
  from assms(1) have fc: "forClients body (map fst (clients pa)) pa = Ok pa'"
    by (simp add: rangeClients_def)
  show ?thesis by (rule forClients_visits [OF fc k none est pres])
qed

lemma keepsSource_refl [simp]: "keepsSource pa pa"
  by (simp add: keepsSource_def)

lemma keepsSource_trans:
  assumes "keepsSource pa pb" and "evolves pb pc" and "keepsSource pb pc"
  shows "keepsSource pa pc"
  unfolding keepsSource_def
proof (intro allI impI)
  fix k assume k: "source pc = ClientSource k"
  with evolves_source [OF assms(2)] have "source pb = ClientSource k" by auto
  with assms(1,3) k show "map_of (clients pc) k = map_of (clients pa) k"
    by (simp add: keepsSource_def)
qed

lemma evolves_same:
  assumes "clients pb = clients pa" "source pb = source pa" "sourceState pb = sourceState pa"
    "conf pb = conf pa" "name pb = name pa" "sourceSdp pb = sourceSdp pa"
    "sourceTrackCount pb = sourceTrackCount pa" "describeTimer pb = describeTimer pa"
    "onDemandCmd pb = onDemandCmd pa"
  shows "evolves pa pb" and "keepsSource pa pb"
  using assms by (simp_all add: evolves_def keepsSource_def)

lemma evolves_scheduleAll [simp]: "evolves pa (scheduleAll pa)" "keepsSource pa (scheduleAll pa)"
  by (rule evolves_same; simp)+

lemma evolves_emit [simp]: "evolves pa (emit x pa)" "keepsSource pa (emit x pa)"
  by (rule evolves_same; simp)+

lemma evolves_mark:
  "evolves pa (pa\<lparr>clients := AList.update c clientStatePreRemove (clients pa)\<rparr>)"
  by (rule evolvesI) (auto simp: update_conv' distinct_update split: if_splits)


lemma closeReaders_evolves:
  assumes rc: "\<And>c p p'. rc c p = Ok p' \<Longrightarrow> evolves p p' \<and> keepsSource p p'"
    and run: "closeReaders rc pa = Ok pa'"
  shows "evolves pa pa' \<and> keepsSource pa pa'"
proof (rule rangeClients_rule [where I = "\<lambda>p. evolves pa p \<and> keepsSource pa p",
        OF run [unfolded closeReaders_def]])
  show "evolves pa pa \<and> keepsSource pa pa" by simp
next
  fix c st p p'
  assume I: "evolves pa p \<and> keepsSource pa p"
    and body: "(if st \<noteq> clientStatePreRemove \<and> st \<noteq> clientStateWaitingDescribe
                then andThen (rc c p) (\<lambda>pa. Ok (emit (OnPathClientClose c) pa))
                else Ok p) = Ok p'"
  show "evolves pa p' \<and> keepsSource pa p'"
  proof (cases "st \<noteq> clientStatePreRemove \<and> st \<noteq> clientStateWaitingDescribe")
    case True
    with body obtain q where q: "rc c p = Ok q" "p' = emit (OnPathClientClose c) q"
      by (auto simp: andThen_Ok_iff)
    from rc [OF q(1)] have pq: "evolves p q" "keepsSource p q" by simp_all
    have qp: "evolves q p'" "keepsSource q p'" using q(2) by simp_all
    have e1: "evolves p p'" using evolves_trans [OF pq(1) qp(1)] .
    have k1: "keepsSource p p'" using keepsSource_trans [OF pq(2) qp(1) qp(2)] .
    show ?thesis using I evolves_trans [OF _ e1] keepsSource_trans [OF _ e1 k1] by blast
  next
    case False
    with body have "p' = p" by auto
    with I show ?thesis by simp
  qed
qed

lemma onSourceSetNotReadyWith_evolves:
  assumes rc: "\<And>c p p'. rc c p = Ok p' \<Longrightarrow> evolves p p' \<and> keepsSource p p'"
    and run: "onSourceSetNotReadyWith rc pa = Ok pa'"
  shows "evolves pa pa' \<and> keepsSource pa pa'
         \<and> sourceState pa' = sourceStateNotReady
         \<and> (\<forall>k. map_of (clients pa') k \<noteq> Some clientStateWaitingDescribe)"
proof -
  define p0 where "p0 = pa\<lparr>sourceState := sourceStateNotReady\<rparr>"
  define body where "body = (\<lambda>c state pa.
          if state = clientStateWaitingDescribe then Panic ''not possible''
          else if ClientSource c \<noteq> source pa \<and> state \<noteq> clientStatePreRemove
            then andThen (rc c pa) (\<lambda>pa. Ok (emit (OnPathClientClose c) pa))
          else Ok pa)"
  from run have loop: "rangeClients body p0 = Ok pa'"
    by (simp add: onSourceSetNotReadyWith_def p0_def body_def)
  have bodyE: "\<And>c st p p'. body c st p = Ok p' \<Longrightarrow> evolves p p' \<and> keepsSource p p'"
  proof -
    fix c st p p' assume b: "body c st p = Ok p'"
    show "evolves p p' \<and> keepsSource p p'"
    proof (cases "st \<noteq> clientStateWaitingDescribe
                  \<and> ClientSource c \<noteq> source p \<and> st \<noteq> clientStatePreRemove")
      case True
      with b obtain q where q: "rc c p = Ok q" "p' = emit (OnPathClientClose c) q"
        by (auto simp: body_def andThen_Ok_iff)
      from rc [OF q(1)] have pq: "evolves p q" "keepsSource p q" by simp_all
      have qp: "evolves q p'" "keepsSource q p'" using q(2) by simp_all
      show ?thesis using evolves_trans [OF pq(1) qp(1)] keepsSource_trans [OF pq(2) qp(1) qp(2)]
        by simp
    next
      case False
      with b have "p' = p" by (auto simp: body_def split: if_splits)
      then show ?thesis by simp
    qed
  qed
  have ev0: "evolves p0 pa' \<and> keepsSource p0 pa'"
  proof (rule rangeClients_rule [where I = "\<lambda>p. evolves p0 p \<and> keepsSource p0 p", OF loop])
    show "evolves p0 p0 \<and> keepsSource p0 p0" by simp
  next
    fix c st p p'
    assume I: "evolves p0 p \<and> keepsSource p0 p" and b: "body c st p = Ok p'"
    from bodyE [OF b] have e: "evolves p p'" "keepsSource p p'" by simp_all
    show "evolves p0 p' \<and> keepsSource p0 p'"
      using I evolves_trans [OF _ e(1)] keepsSource_trans [OF _ e(1) e(2)] by blast
  qed
  have nw: "\<forall>k. map_of (clients pa') k \<noteq> Some clientStateWaitingDescribe"
  proof (intro allI notI)
    fix k assume w: "map_of (clients pa') k = Some clientStateWaitingDescribe"
    from evolves_state [OF conjunct1 [OF ev0] w]
    have w0: "map_of (clients p0) k = Some clientStateWaitingDescribe" by simp
    then have k0: "map_of (clients p0) k \<noteq> None" by simp
    have "map_of (clients pa') k \<noteq> Some clientStateWaitingDescribe"
    proof (rule rangeClients_visits
        [where Q = "\<lambda>p. map_of (clients p) k \<noteq> Some clientStateWaitingDescribe", OF loop k0])
      fix p :: Path assume "map_of (clients p) k = None"
      then show "map_of (clients p) k \<noteq> Some clientStateWaitingDescribe" by simp
    next
      fix st p p'
      assume st: "map_of (clients p) k = Some st" and b: "body k st p = Ok p'"
      from b have "st \<noteq> clientStateWaitingDescribe" by (auto simp: body_def)
      with st have "map_of (clients p) k \<noteq> Some clientStateWaitingDescribe" by simp
      then show "map_of (clients p') k \<noteq> Some clientStateWaitingDescribe"
        using evolves_notWaiting [OF conjunct1 [OF bodyE [OF b]]] by simp
    next
      fix c st p p'
      assume "map_of (clients p) k \<noteq> Some clientStateWaitingDescribe" and b: "body c st p = Ok p'"
      then show "map_of (clients p') k \<noteq> Some clientStateWaitingDescribe"
        using evolves_notWaiting [OF conjunct1 [OF bodyE [OF b]]] by simp
    qed
    with w show False by simp
  qed
  have ss: "sourceState pa' = sourceStateNotReady"
    using evolves_sourceState [OF conjunct1 [OF ev0]] by (auto simp: p0_def)
  have ev: "evolves pa pa'"
  proof (rule evolvesI)
    show "conf pa' = conf pa" "name pa' = name pa" "sourceSdp pa' = sourceSdp pa"
      "sourceTrackCount pa' = sourceTrackCount pa" "describeTimer pa' = describeTimer pa"
      "onDemandCmd pa' = onDemandCmd pa"
      using evolves_fields [OF conjunct1 [OF ev0]] by (simp_all add: p0_def)
    show "distinct (map fst (clients pa)) \<Longrightarrow> distinct (map fst (clients pa'))"
      using evolves_distinct [OF conjunct1 [OF ev0]] by (simp add: p0_def)
    show "\<And>k. map_of (clients pa) k \<noteq> None \<Longrightarrow> map_of (clients pa') k \<noteq> None"
      using evolves_keys [OF conjunct1 [OF ev0]] by (simp add: p0_def)
    show "\<And>k st. map_of (clients pa') k = Some st
           \<Longrightarrow> st = clientStatePreRemove \<or> map_of (clients pa) k = Some st"
      using evolves_state [OF conjunct1 [OF ev0]] by (simp add: p0_def)
    show "source pa' = source pa \<or> source pa' = NoSource
           \<and> (\<exists>k. source pa = ClientSource k
                 \<and> map_of (clients pa') k = Some clientStatePreRemove)"
      using evolves_source [OF conjunct1 [OF ev0]] by (simp add: p0_def)
    show "sourceState pa' = sourceState pa \<or> sourceState pa' = sourceStateNotReady
           \<and> (\<forall>k. map_of (clients pa') k \<noteq> Some clientStateWaitingDescribe)"
      using ss nw by simp
  qed
  have ks: "keepsSource pa pa'"
    using conjunct2 [OF ev0] by (simp add: keepsSource_def p0_def)
  show ?thesis using ev ks ss nw by simp
qed


lemma removeClientFuel_evolves:
  "removeClientFuel n c pa = Ok pa'
     \<Longrightarrow> evolves pa pa' \<and> keepsSource pa pa'
         \<and> map_of (clients pa') c = Some clientStatePreRemove"
proof (induction n arbitrary: c pa pa')
  case 0
  then show ?case by simp
next
  case (Suc n)
  have rc: "\<And>c p p'. removeClientFuel n c p = Ok p' \<Longrightarrow> evolves p p' \<and> keepsSource p p'"
    using Suc.IH by blast
  define st where "st = (case map_of (clients pa) c of
                     None \<Rightarrow> clientStateWaitingDescribe | Some s \<Rightarrow> s)"
  define pa1 where "pa1 = pa\<lparr>clients := AList.update c clientStatePreRemove (clients pa)\<rparr>"
  from Suc.prems have "\<exists>pa2. (case st of
              clientStatePlay \<Rightarrow>
                Ok (pa1\<lparr>countReaders := countReaders pa1 - 1, readers := readersRemove c (readers pa1)\<rparr>)
            | clientStateRecord \<Rightarrow>
                onSourceSetNotReadyWith (removeClientFuel n)
                  (pa1\<lparr>countPublishers := countPublishers pa1 - 1\<rparr>)
            | _ \<Rightarrow> Ok pa1) = Ok pa2
       \<and> (\<exists>pa3. (if source pa2 = ClientSource c
                 then closeReaders (removeClientFuel n) (pa2\<lparr>source := NoSource\<rparr>)
               else Ok pa2) = Ok pa3 \<and> Ok (scheduleAll pa3) = Ok pa')"
    unfolding st_def pa1_def by (simp only: removeClientFuel.simps Let_def andThen_Ok_iff)
  then obtain pa2 pa3 where
    A: "(case st of
              clientStatePlay \<Rightarrow>
                Ok (pa1\<lparr>countReaders := countReaders pa1 - 1, readers := readersRemove c (readers pa1)\<rparr>)
            | clientStateRecord \<Rightarrow>
                onSourceSetNotReadyWith (removeClientFuel n)
                  (pa1\<lparr>countPublishers := countPublishers pa1 - 1\<rparr>)
            | _ \<Rightarrow> Ok pa1) = Ok pa2"
    and B: "(if source pa2 = ClientSource c
                 then closeReaders (removeClientFuel n) (pa2\<lparr>source := NoSource\<rparr>)
               else Ok pa2) = Ok pa3"
    and C: "pa' = scheduleAll pa3"
    by blast
  have m: "evolves pa pa1" unfolding pa1_def by (rule evolves_mark)
  have c1: "map_of (clients pa1) c = Some clientStatePreRemove"
    by (simp add: pa1_def update_conv')
  have a: "evolves pa1 pa2 \<and> keepsSource pa1 pa2"
  proof (cases st)
    case clientStatePlay
    with A have "pa2 = pa1\<lparr>countReaders := countReaders pa1 - 1, readers := readersRemove c (readers pa1)\<rparr>"
      by simp
    then show ?thesis by (simp add: evolves_def keepsSource_def)
  next
    case clientStateRecord
    with A have r: "onSourceSetNotReadyWith (removeClientFuel n)
                  (pa1\<lparr>countPublishers := countPublishers pa1 - 1\<rparr>) = Ok pa2" by simp
    from onSourceSetNotReadyWith_evolves [OF rc r]
    have e: "evolves (pa1\<lparr>countPublishers := countPublishers pa1 - 1\<rparr>) pa2"
      "keepsSource (pa1\<lparr>countPublishers := countPublishers pa1 - 1\<rparr>) pa2" by simp_all
    have e0: "evolves pa1 (pa1\<lparr>countPublishers := countPublishers pa1 - 1\<rparr>)"
      "keepsSource pa1 (pa1\<lparr>countPublishers := countPublishers pa1 - 1\<rparr>)"
      by (simp_all add: evolves_def keepsSource_def)
    show ?thesis using evolves_trans [OF e0(1) e(1)] keepsSource_trans [OF e0(2) e(1) e(2)]
      by simp
  qed (use A in auto)
  have c2: "map_of (clients pa2) c = Some clientStatePreRemove"
    using evolves_PreRemove [OF conjunct1 [OF a] c1] .
  have b: "evolves pa2 pa3 \<and> (source pa2 = ClientSource c \<longrightarrow> source pa3 = NoSource)
           \<and> (source pa2 \<noteq> ClientSource c \<longrightarrow> pa3 = pa2)"
  proof (cases "source pa2 = ClientSource c")
    case True
    with B have cr: "closeReaders (removeClientFuel n) (pa2\<lparr>source := NoSource\<rparr>) = Ok pa3"
      by simp
    from closeReaders_evolves [OF rc cr]
    have e: "evolves (pa2\<lparr>source := NoSource\<rparr>) pa3" by simp
    have e0: "evolves pa2 (pa2\<lparr>source := NoSource\<rparr>)"
      by (rule evolvesI) (use True c2 in auto)
    have "source pa3 = NoSource" using evolves_source [OF e] by auto
    then show ?thesis using evolves_trans [OF e0 e] True by simp
  next
    case False
    with B show ?thesis by simp
  qed
  have e3: "evolves pa3 pa'" using C by simp
  have ev1: "evolves pa1 pa'"
    using evolves_trans [OF conjunct1 [OF a] evolves_trans [OF conjunct1 [OF b] e3]] .
  have ev: "evolves pa pa'" using evolves_trans [OF m ev1] .
  have ks: "keepsSource pa pa'"
    unfolding keepsSource_def
  proof (intro allI impI)
    fix k assume k: "source pa' = ClientSource k"
    with C have k3: "source pa3 = ClientSource k" by simp
    with b have ne: "source pa2 \<noteq> ClientSource c" and eq: "pa3 = pa2" by auto
    from k3 eq ne have kc: "k \<noteq> c" and k2: "source pa2 = ClientSource k" by auto
    from a k2 have "map_of (clients pa2) k = map_of (clients pa1) k"
      by (simp add: keepsSource_def)
    also have "\<dots> = map_of (clients pa) k" using kc by (simp add: pa1_def update_conv')
    finally show "map_of (clients pa') k = map_of (clients pa) k" using C eq by simp
  qed
  have "map_of (clients pa') c = Some clientStatePreRemove"
    using evolves_PreRemove [OF ev1 c1] .
  with ev ks show ?case by simp
qed

lemma removeClient_evolves:
  "removeClient c pa = Ok pa'
     \<Longrightarrow> evolves pa pa' \<and> keepsSource pa pa'
         \<and> map_of (clients pa') c = Some clientStatePreRemove"
  unfolding removeClient_def by (rule removeClientFuel_evolves)

lemma onSourceSetNotReady_evolves:
  assumes "onSourceSetNotReady pa = Ok pa'"
  shows "evolves pa pa' \<and> keepsSource pa pa'
         \<and> sourceState pa' = sourceStateNotReady
         \<and> (\<forall>k. map_of (clients pa') k \<noteq> Some clientStateWaitingDescribe)"
proof (rule onSourceSetNotReadyWith_evolves [OF _ assms [unfolded onSourceSetNotReady_def]])
  fix c p p' assume "removeClient c p = Ok p'"
  then show "evolves p p' \<and> keepsSource p p'" using removeClient_evolves by blast
qed

subsection \<open>The recursion of removeClient returns\<close>

lemma active_update_le: "active (AList.update c clientStatePreRemove cs) \<le> active cs"
  by (induction cs) (auto simp: active_def)

lemma active_update_less:
  "map_of cs c = Some st \<Longrightarrow> st \<noteq> clientStatePreRemove
     \<Longrightarrow> active (AList.update c clientStatePreRemove cs) < active cs"
  by (induction cs) (auto simp: active_def split: if_splits)

lemma active_le_length: "active cs \<le> length cs"
  by (simp add: active_def)

lemma andThen_fuel:
  assumes "m \<noteq> OutOfFuel" and "\<And>x. m = Ok x \<Longrightarrow> f x \<noteq> OutOfFuel"
  shows "andThen m f \<noteq> OutOfFuel"
  using assms by (cases m) auto

lemma forClients_fuel:
  assumes "active (clients pa) \<le> n"
    and body: "\<And>c st p. active (clients p) \<le> n \<Longrightarrow> map_of (clients p) c = Some st
        \<Longrightarrow> body c st p \<noteq> OutOfFuel
            \<and> (\<forall>p'. body c st p = Ok p' \<longrightarrow> active (clients p') \<le> active (clients p))"
  shows "forClients body ks pa \<noteq> OutOfFuel
         \<and> (\<forall>pa'. forClients body ks pa = Ok pa'
               \<longrightarrow> active (clients pa') \<le> active (clients pa))"
  using assms(1)
proof (induction ks arbitrary: pa)
  case Nil
  then show ?case by simp
next
  case (Cons k ks)
  show ?case
  proof (cases "map_of (clients pa) k")
    case None
    then show ?thesis using Cons.IH [OF Cons.prems] by simp
  next
    case (Some st)
    note b = body [OF Cons.prems Some]
    show ?thesis
    proof (cases "body k st pa")
      case (Ok p)
      with b have le: "active (clients p) \<le> active (clients pa)" by simp
      with Cons.prems have "active (clients p) \<le> n" by simp
      from Cons.IH [OF this] le Some Ok show ?thesis by auto
    next
      case (Panic m)
      with Some show ?thesis by simp
    next
      case OutOfFuel
      with b show ?thesis by simp
    qed
  qed
qed

lemma removeBody_fuel:
  assumes rc: "\<And>c p. active (AList.update c clientStatePreRemove (clients p)) < n
        \<Longrightarrow> rc c p \<noteq> OutOfFuel
            \<and> (\<forall>p'. rc c p = Ok p'
                  \<longrightarrow> active (clients p') \<le> active (AList.update c clientStatePreRemove (clients p)))"
    and le: "active (clients p) \<le> n"
    and st: "map_of (clients p) c = Some st" "st \<noteq> clientStatePreRemove"
  shows "andThen (rc c p) (\<lambda>pa. Ok (emit x pa)) \<noteq> OutOfFuel
         \<and> (\<forall>p'. andThen (rc c p) (\<lambda>pa. Ok (emit x pa)) = Ok p'
               \<longrightarrow> active (clients p') \<le> active (clients p))"
proof -
  from active_update_less [OF st] le
  have lt: "active (AList.update c clientStatePreRemove (clients p)) < n" by simp
  from rc [OF lt] active_update_le [of c "clients p"] show ?thesis
    by (cases "rc c p") auto
qed

lemma removeClientFuel_total:
  "active (AList.update c clientStatePreRemove (clients pa)) < n
     \<Longrightarrow> removeClientFuel n c pa \<noteq> OutOfFuel
         \<and> (\<forall>pa'. removeClientFuel n c pa = Ok pa'
               \<longrightarrow> active (clients pa')
                   \<le> active (AList.update c clientStatePreRemove (clients pa)))"
proof (induction n arbitrary: c pa)
  case 0
  then show ?case by simp
next
  case (Suc n)
  define st where "st = (case map_of (clients pa) c of
                     None \<Rightarrow> clientStateWaitingDescribe | Some s \<Rightarrow> s)"
  define pa1 where "pa1 = pa\<lparr>clients := AList.update c clientStatePreRemove (clients pa)\<rparr>"
  define A where "A = (case st of
              clientStatePlay \<Rightarrow>
                Ok (pa1\<lparr>countReaders := countReaders pa1 - 1, readers := readersRemove c (readers pa1)\<rparr>)
            | clientStateRecord \<Rightarrow>
                onSourceSetNotReadyWith (removeClientFuel n)
                  (pa1\<lparr>countPublishers := countPublishers pa1 - 1\<rparr>)
            | _ \<Rightarrow> Ok pa1)"
  define B where "B = (\<lambda>pa2. if source pa2 = ClientSource c
                 then closeReaders (removeClientFuel n) (pa2\<lparr>source := NoSource\<rparr>)
               else Ok pa2)"
  have unfold: "removeClientFuel (Suc n) c pa
                  = andThen A (\<lambda>pa2. andThen (B pa2) (\<lambda>pa3. Ok (scheduleAll pa3)))"
    unfolding A_def B_def st_def pa1_def by (simp only: removeClientFuel.simps Let_def)
  from Suc.prems have n1: "active (clients pa1) \<le> n" by (simp add: pa1_def)
  have a: "A \<noteq> OutOfFuel \<and> (\<forall>p. A = Ok p \<longrightarrow> active (clients p) \<le> active (clients pa1))"
  proof (cases st)
    case clientStateRecord
    define p0 where "p0 = pa1\<lparr>countPublishers := countPublishers pa1 - 1,
                               sourceState := sourceStateNotReady\<rparr>"
    have n0: "active (clients p0) \<le> n" using n1 by (simp add: p0_def)
    have "A = forClients (\<lambda>c state pa.
          if state = clientStateWaitingDescribe then Panic ''not possible''
          else if ClientSource c \<noteq> source pa \<and> state \<noteq> clientStatePreRemove
            then andThen (removeClientFuel n c pa) (\<lambda>pa. Ok (emit (OnPathClientClose c) pa))
          else Ok pa) (map fst (clients p0)) p0"
      by (simp add: A_def clientStateRecord onSourceSetNotReadyWith_def rangeClients_def p0_def)
    moreover have "forClients (\<lambda>c state pa.
          if state = clientStateWaitingDescribe then Panic ''not possible''
          else if ClientSource c \<noteq> source pa \<and> state \<noteq> clientStatePreRemove
            then andThen (removeClientFuel n c pa) (\<lambda>pa. Ok (emit (OnPathClientClose c) pa))
          else Ok pa) (map fst (clients p0)) p0 \<noteq> OutOfFuel
       \<and> (\<forall>pa'. forClients (\<lambda>c state pa.
          if state = clientStateWaitingDescribe then Panic ''not possible''
          else if ClientSource c \<noteq> source pa \<and> state \<noteq> clientStatePreRemove
            then andThen (removeClientFuel n c pa) (\<lambda>pa. Ok (emit (OnPathClientClose c) pa))
          else Ok pa) (map fst (clients p0)) p0 = Ok pa'
               \<longrightarrow> active (clients pa') \<le> active (clients p0))"
    proof (rule forClients_fuel [OF n0])
      fix k s and p :: Path
      assume le: "active (clients p) \<le> n" and s: "map_of (clients p) k = Some s"
      show "(if s = clientStateWaitingDescribe then Panic ''not possible''
          else if ClientSource k \<noteq> source p \<and> s \<noteq> clientStatePreRemove
            then andThen (removeClientFuel n k p) (\<lambda>pa. Ok (emit (OnPathClientClose k) pa))
          else Ok p) \<noteq> OutOfFuel
        \<and> (\<forall>p'. (if s = clientStateWaitingDescribe then Panic ''not possible''
          else if ClientSource k \<noteq> source p \<and> s \<noteq> clientStatePreRemove
            then andThen (removeClientFuel n k p) (\<lambda>pa. Ok (emit (OnPathClientClose k) pa))
          else Ok p) = Ok p' \<longrightarrow> active (clients p') \<le> active (clients p))"
        using removeBody_fuel [where rc = "removeClientFuel n", OF Suc.IH le s] by simp
    qed
    ultimately show ?thesis by (simp add: p0_def)
  qed (simp_all add: A_def)
  have b: "\<And>pa2. active (clients pa2) \<le> n \<Longrightarrow>
        B pa2 \<noteq> OutOfFuel \<and> (\<forall>p. B pa2 = Ok p \<longrightarrow> active (clients p) \<le> active (clients pa2))"
  proof -
    fix pa2 :: Path assume n2: "active (clients pa2) \<le> n"
    show "B pa2 \<noteq> OutOfFuel \<and> (\<forall>p. B pa2 = Ok p \<longrightarrow> active (clients p) \<le> active (clients pa2))"
    proof (cases "source pa2 = ClientSource c")
      case False
      then show ?thesis by (simp add: B_def)
    next
      case True
      define p0 where "p0 = pa2\<lparr>source := NoSource\<rparr>"
      have n0: "active (clients p0) \<le> n" using n2 by (simp add: p0_def)
      have "B pa2 = forClients (\<lambda>oc state pa.
          if state \<noteq> clientStatePreRemove \<and> state \<noteq> clientStateWaitingDescribe
            then andThen (removeClientFuel n oc pa) (\<lambda>pa. Ok (emit (OnPathClientClose oc) pa))
          else Ok pa) (map fst (clients p0)) p0"
        by (simp add: B_def True closeReaders_def rangeClients_def p0_def)
      moreover have "forClients (\<lambda>oc state pa.
          if state \<noteq> clientStatePreRemove \<and> state \<noteq> clientStateWaitingDescribe
            then andThen (removeClientFuel n oc pa) (\<lambda>pa. Ok (emit (OnPathClientClose oc) pa))
          else Ok pa) (map fst (clients p0)) p0 \<noteq> OutOfFuel
         \<and> (\<forall>pa'. forClients (\<lambda>oc state pa.
          if state \<noteq> clientStatePreRemove \<and> state \<noteq> clientStateWaitingDescribe
            then andThen (removeClientFuel n oc pa) (\<lambda>pa. Ok (emit (OnPathClientClose oc) pa))
          else Ok pa) (map fst (clients p0)) p0 = Ok pa'
               \<longrightarrow> active (clients pa') \<le> active (clients p0))"
      proof (rule forClients_fuel [OF n0])
        fix k s and p :: Path
        assume le: "active (clients p) \<le> n" and s: "map_of (clients p) k = Some s"
        show "(if s \<noteq> clientStatePreRemove \<and> s \<noteq> clientStateWaitingDescribe
            then andThen (removeClientFuel n k p) (\<lambda>pa. Ok (emit (OnPathClientClose k) pa))
          else Ok p) \<noteq> OutOfFuel
          \<and> (\<forall>p'. (if s \<noteq> clientStatePreRemove \<and> s \<noteq> clientStateWaitingDescribe
            then andThen (removeClientFuel n k p) (\<lambda>pa. Ok (emit (OnPathClientClose k) pa))
          else Ok p) = Ok p' \<longrightarrow> active (clients p') \<le> active (clients p))"
          using removeBody_fuel [where rc = "removeClientFuel n", OF Suc.IH le s] by simp
      qed
      ultimately show ?thesis by (simp add: p0_def)
    qed
  qed
  show ?case
  proof (cases A)
    case (Ok pa2)
    with a n1 have n2: "active (clients pa2) \<le> active (clients pa1)" "active (clients pa2) \<le> n"
      by simp_all
    show ?thesis
    proof (cases "B pa2")
      case (Ok pa3)
      with b [OF n2(2)] n2(1) \<open>A = Ok pa2\<close> show ?thesis
        unfolding unfold by (simp add: pa1_def)
    next
      case (Panic m)
      with \<open>A = Ok pa2\<close> show ?thesis unfolding unfold by simp
    next
      case OutOfFuel
      with b [OF n2(2)] show ?thesis unfolding unfold by simp
    qed
  next
    case (Panic m)
    then show ?thesis unfolding unfold by simp
  next
    case OutOfFuel
    with a show ?thesis unfolding unfold by simp
  qed
qed

lemma removeClient_total: "removeClient c pa \<noteq> OutOfFuel"
proof -
  have "active (AList.update c clientStatePreRemove (clients pa)) < Suc (length (clients pa))"
    using active_update_le [of c "clients pa"] active_le_length [of "clients pa"] by simp
  from removeClientFuel_total [OF this] show ?thesis by (simp add: removeClient_def)
qed

lemma forClients_total:
  assumes "\<And>c st p. body c st p \<noteq> OutOfFuel"
  shows "forClients body ks pa \<noteq> OutOfFuel"
proof (induction ks arbitrary: pa)
  case Nil
  show ?case by simp
next
  case (Cons k ks)
  show ?case
  proof (cases "map_of (clients pa) k")
    case None
    then show ?thesis using Cons.IH by simp
  next
    case (Some st)
    then show ?thesis using Cons.IH assms [of k st pa] by (cases "body k st pa") auto
  qed
qed

lemma removeThen_total: "andThen (removeClient c pa) (\<lambda>pa. Ok (f pa)) \<noteq> OutOfFuel"
  using removeClient_total [of c pa] by (cases "removeClient c pa") auto

lemma onSourceSetNotReady_total: "onSourceSetNotReady pa \<noteq> OutOfFuel"
  unfolding onSourceSetNotReady_def onSourceSetNotReadyWith_def rangeClients_def
  by (rule forClients_total) (simp add: removeThen_total)

lemma replyToDescribers_total: "replyToDescribers pa \<noteq> OutOfFuel"
  unfolding replyToDescribers_def rangeClients_def
  by (rule forClients_total) (simp add: removeThen_total)

lemma timeOutDescribers_total: "timeOutDescribers pa \<noteq> OutOfFuel"
  unfolding timeOutDescribers_def rangeClients_def
  by (rule forClients_total) (simp add: removeThen_total)

lemma onSourceSetReady_total: "onSourceSetReady pa \<noteq> OutOfFuel"
  unfolding onSourceSetReady_def Let_def
  by (rule andThen_fuel) (simp_all add: replyToDescribers_total)

lemma describeNow_total: "describeNow c f pa \<noteq> OutOfFuel"
  unfolding describeNow_def
  by (rule andThen_fuel) (simp_all add: addClient_def removeThen_total split: if_splits)

lemma onClientDescribe_total: "onClientDescribe c pa \<noteq> OutOfFuel"
  by (simp add: onClientDescribe_def Let_def describeNow_total addClient_def
      split: sourceState.splits)

lemma step_total: "step ev pa \<noteq> OutOfFuel"
proof (cases ev)
  case DescribeTimer
  then show ?thesis
    by (simp add: onDescribeTimer_def andThen_OutOfFuel_iff timeOutDescribers_total)
next
  case SourceCloseTimer
  then show ?thesis by (simp add: onSourceCloseTimer_def Let_def)
next
  case RunOnDemandCloseTimer
  then show ?thesis by (simp add: onRunOnDemandCloseTimer_def Let_def)
next
  case (SourceSetReady ts)
  then show ?thesis by (simp add: onSourceSetReady_total)
next
  case SourceSetNotReady
  then show ?thesis by (simp add: onSourceSetNotReady_total)
next
  case (ClientDescribe c)
  then show ?thesis by (simp add: onClientDescribe_total)
next
  case (ClientSetupPlay c t)
  then show ?thesis
    by (simp add: onClientSetupPlay_def addClient_def andThen_OutOfFuel_iff)
next
  case (ClientPlay c)
  then show ?thesis by simp
next
  case (ClientAnnounce c ts)
  then show ?thesis
    by (simp add: onClientAnnounce_def addClient_def andThen_OutOfFuel_iff)
next
  case (ClientRecord c)
  then show ?thesis
    by (simp add: onClientRecord_def andThen_OutOfFuel_iff onSourceSetReady_total
        split: option.splits)
next
  case (ClientRemove c)
  then show ?thesis
    using removeClient_total [of c pa]
    by (simp add: onClientRemove_def andThen_OutOfFuel_iff split: option.splits)
qed

subsection \<open>A rule for removeClient, and the close timer\<close>

lemma removeClientFuel_rule:
  assumes run: "removeClientFuel n c pa = Ok pa'" and I: "I pa"
    and mark: "\<And>c p. I p \<Longrightarrow> I (p\<lparr>clients := AList.update c clientStatePreRemove (clients p)\<rparr>)"
    and rd: "\<And>p x r. I p \<Longrightarrow> I (p\<lparr>countReaders := x, readers := r\<rparr>)"
    and pb: "\<And>p x. I p \<Longrightarrow> I (p\<lparr>countPublishers := x\<rparr>)"
    and nr: "\<And>p. I p \<Longrightarrow> I (p\<lparr>sourceState := sourceStateNotReady\<rparr>)"
    and sg: "\<And>p c. I p \<Longrightarrow> source p = ClientSource c \<Longrightarrow> I (p\<lparr>source := NoSource\<rparr>)"
    and em: "\<And>p x. I p \<Longrightarrow> I (emit x p)"
    and sch: "\<And>p. I p \<Longrightarrow> I (scheduleAll p)"
  shows "I pa'"
  using run I
proof (induction n arbitrary: c pa pa')
  case 0
  then show ?case by simp
next
  case (Suc n)
  have body: "\<And>k p p'. I p \<Longrightarrow>
      andThen (removeClientFuel n k p) (\<lambda>pa. Ok (emit (OnPathClientClose k) pa)) = Ok p'
      \<Longrightarrow> I p'"
  proof -
    fix k p p'
    assume p: "I p"
      and r: "andThen (removeClientFuel n k p) (\<lambda>pa. Ok (emit (OnPathClientClose k) pa)) = Ok p'"
    from r obtain q where q: "removeClientFuel n k p = Ok q" "p' = emit (OnPathClientClose k) q"
      by (auto simp: andThen_Ok_iff)
    from Suc.IH [OF q(1) p] q(2) show "I p'" by (simp add: em)
  qed
  define st where "st = (case map_of (clients pa) c of
                     None \<Rightarrow> clientStateWaitingDescribe | Some s \<Rightarrow> s)"
  define pa1 where "pa1 = pa\<lparr>clients := AList.update c clientStatePreRemove (clients pa)\<rparr>"
  from Suc.prems(1) have "\<exists>pa2. (case st of
              clientStatePlay \<Rightarrow>
                Ok (pa1\<lparr>countReaders := countReaders pa1 - 1, readers := readersRemove c (readers pa1)\<rparr>)
            | clientStateRecord \<Rightarrow>
                onSourceSetNotReadyWith (removeClientFuel n)
                  (pa1\<lparr>countPublishers := countPublishers pa1 - 1\<rparr>)
            | _ \<Rightarrow> Ok pa1) = Ok pa2
       \<and> (\<exists>pa3. (if source pa2 = ClientSource c
                 then closeReaders (removeClientFuel n) (pa2\<lparr>source := NoSource\<rparr>)
               else Ok pa2) = Ok pa3 \<and> Ok (scheduleAll pa3) = Ok pa')"
    unfolding st_def pa1_def by (simp only: removeClientFuel.simps Let_def andThen_Ok_iff)
  then obtain pa2 pa3 where
    A: "(case st of
              clientStatePlay \<Rightarrow>
                Ok (pa1\<lparr>countReaders := countReaders pa1 - 1, readers := readersRemove c (readers pa1)\<rparr>)
            | clientStateRecord \<Rightarrow>
                onSourceSetNotReadyWith (removeClientFuel n)
                  (pa1\<lparr>countPublishers := countPublishers pa1 - 1\<rparr>)
            | _ \<Rightarrow> Ok pa1) = Ok pa2"
    and B: "(if source pa2 = ClientSource c
                 then closeReaders (removeClientFuel n) (pa2\<lparr>source := NoSource\<rparr>)
               else Ok pa2) = Ok pa3"
    and C: "pa' = scheduleAll pa3"
    by blast
  have i1: "I pa1" unfolding pa1_def by (rule mark [OF Suc.prems(2)])
  have i2: "I pa2"
  proof (cases st)
    case clientStatePlay
    with A have "pa2 = pa1\<lparr>countReaders := countReaders pa1 - 1, readers := readersRemove c (readers pa1)\<rparr>"
      by simp
    then show ?thesis using rd [OF i1] by simp
  next
    case clientStateRecord
    with A have r: "rangeClients
       (\<lambda>c state pa.
          if state = clientStateWaitingDescribe then Panic ''not possible''
          else if ClientSource c \<noteq> source pa \<and> state \<noteq> clientStatePreRemove
            then andThen (removeClientFuel n c pa) (\<lambda>pa. Ok (emit (OnPathClientClose c) pa))
          else Ok pa)
       (pa1\<lparr>countPublishers := countPublishers pa1 - 1, sourceState := sourceStateNotReady\<rparr>)
         = Ok pa2"
      by (simp add: onSourceSetNotReadyWith_def)
    have i0: "I (pa1\<lparr>countPublishers := countPublishers pa1 - 1,
                    sourceState := sourceStateNotReady\<rparr>)"
      using nr [OF pb [OF i1]] by simp
    show ?thesis
    proof (rule rangeClients_rule [where I = I, OF r i0])
      fix k s and p p' :: Path
      assume p: "I p" and b: "(if s = clientStateWaitingDescribe then Panic ''not possible''
          else if ClientSource k \<noteq> source p \<and> s \<noteq> clientStatePreRemove
            then andThen (removeClientFuel n k p) (\<lambda>pa. Ok (emit (OnPathClientClose k) pa))
          else Ok p) = Ok p'"
      show "I p'"
      proof (cases "s \<noteq> clientStateWaitingDescribe
                    \<and> ClientSource k \<noteq> source p \<and> s \<noteq> clientStatePreRemove")
        case True
        with b show ?thesis using body [OF p] by simp
      next
        case False
        with b have "p' = p" by (auto split: if_splits)
        with p show ?thesis by simp
      qed
    qed
  qed (use A i1 in auto)
  have i3: "I pa3"
  proof (cases "source pa2 = ClientSource c")
    case True
    with B have r: "rangeClients
       (\<lambda>oc state pa.
          if state \<noteq> clientStatePreRemove \<and> state \<noteq> clientStateWaitingDescribe
            then andThen (removeClientFuel n oc pa) (\<lambda>pa. Ok (emit (OnPathClientClose oc) pa))
          else Ok pa)
       (pa2\<lparr>source := NoSource\<rparr>) = Ok pa3"
      by (simp add: closeReaders_def)
    have i0: "I (pa2\<lparr>source := NoSource\<rparr>)" by (rule sg [OF i2 True])
    show ?thesis
    proof (rule rangeClients_rule [where I = I, OF r i0])
      fix k s and p p' :: Path
      assume p: "I p" and b: "(if s \<noteq> clientStatePreRemove \<and> s \<noteq> clientStateWaitingDescribe
            then andThen (removeClientFuel n k p) (\<lambda>pa. Ok (emit (OnPathClientClose k) pa))
          else Ok p) = Ok p'"
      show "I p'"
      proof (cases "s \<noteq> clientStatePreRemove \<and> s \<noteq> clientStateWaitingDescribe")
        case True
        with b show ?thesis using body [OF p] by simp
      next
        case False
        with b have "p' = p" by (auto split: if_splits)
        with p show ?thesis by simp
      qed
    qed
  next
    case False
    with B i2 show ?thesis by simp
  qed
  show ?case using sch [OF i3] C by simp
qed

lemma set_updateD: "x \<in> set (AList.update k v al) \<Longrightarrow> x = (k, v) \<or> x \<in> set al"
  by (induction al) (simp_all split: if_splits, blast+)

lemma hasClients_iff:
  "hasClients pa \<longleftrightarrow> (\<exists>c st. (c, st) \<in> set (clients pa) \<and> st \<noteq> clientStatePreRemove)"
  by (auto simp: hasClients_def list_ex_iff)

lemma hasClients_map_of:
  assumes "distinct (map fst (clients pa))"
  shows "hasClients pa
         \<longleftrightarrow> (\<exists>c st. map_of (clients pa) c = Some st \<and> st \<noteq> clientStatePreRemove)"
  using assms by (auto simp: hasClients_iff)

lemma hasClients_mark:
  "hasClients (p\<lparr>clients := AList.update c clientStatePreRemove (clients p)\<rparr>) \<Longrightarrow> hasClients p"
  unfolding hasClients_iff
proof -
  assume "\<exists>k st. (k, st) \<in> set (clients (p\<lparr>clients := AList.update c clientStatePreRemove (clients p)\<rparr>))
            \<and> st \<noteq> clientStatePreRemove"
  then obtain k st where k: "(k, st) \<in> set (AList.update c clientStatePreRemove (clients p))"
    "st \<noteq> clientStatePreRemove" by auto
  from set_updateD [OF k(1)] k(2) have "(k, st) \<in> set (clients p)" by auto
  with k(2) show "\<exists>k st. (k, st) \<in> set (clients p) \<and> st \<noteq> clientStatePreRemove" by blast
qed

lemma hasClients_cong: "clients p' = clients p \<Longrightarrow> hasClients p' = hasClients p"
  by (simp add: hasClients_def)

lemma hasExternalSource_cong: "conf p' = conf p \<Longrightarrow> hasExternalSource p' = hasExternalSource p"
  by (simp add: hasExternalSource_def)

lemma sourceCloseAllowed_cong:
  "conf p' = conf p \<Longrightarrow> clients p' = clients p \<Longrightarrow> source p' = source p
     \<Longrightarrow> sourceState p' = sourceState p \<Longrightarrow> sourceCloseAllowed p' = sourceCloseAllowed p"
  by (simp add: sourceCloseAllowed_def hasClients_def hasExternalSource_def)

lemma invSourceClose_cong:
  "conf p' = conf p \<Longrightarrow> clients p' = clients p \<Longrightarrow> source p' = source p
     \<Longrightarrow> sourceState p' = sourceState p \<Longrightarrow> sourceCloseTimer p' = sourceCloseTimer p
     \<Longrightarrow> sourceCloseTimerStarted p' = sourceCloseTimerStarted p
     \<Longrightarrow> invSourceClose p' = invSourceClose p"
  by (simp add: invSourceClose_def sourceCloseAllowed_def hasClients_def hasExternalSource_def)

lemma invSourceClose_scheduleSourceClose:
  "invSourceClose p \<Longrightarrow> invSourceClose (scheduleSourceClose p)"
  by (auto simp: invSourceClose_def scheduleSourceClose_def sourceCloseAllowed_def
      hasClients_def hasExternalSource_def)

lemma invSourceClose_scheduleAll: "invSourceClose p \<Longrightarrow> invSourceClose (scheduleAll p)"
proof -
  assume a: "invSourceClose p"
  have "invSourceClose (scheduleClose (scheduleRunOnDemandClose (scheduleSourceClose p)))
        = invSourceClose (scheduleSourceClose p)"
    by (rule invSourceClose_cong)
      (simp_all add: scheduleClose_def scheduleRunOnDemandClose_def)
  with invSourceClose_scheduleSourceClose [OF a] show ?thesis by (simp add: scheduleAll_def)
qed

text \<open>The part of the invariant that the timer needs through a removal.\<close>

lemma removeClientFuel_timer:
  assumes run: "removeClientFuel n c pa = Ok pa'"
    and I: "(hasExternalSource pa \<longrightarrow> (\<forall>k. source pa \<noteq> ClientSource k)) \<and> invSourceClose pa"
  shows "(hasExternalSource pa' \<longrightarrow> (\<forall>k. source pa' \<noteq> ClientSource k)) \<and> invSourceClose pa'"
proof (rule removeClientFuel_rule
    [where I = "\<lambda>p. (hasExternalSource p \<longrightarrow> (\<forall>k. source p \<noteq> ClientSource k)) \<and> invSourceClose p",
      OF run I])
  fix c p
  assume a: "(hasExternalSource p \<longrightarrow> (\<forall>k. source p \<noteq> ClientSource k)) \<and> invSourceClose p"
  let ?p = "p\<lparr>clients := AList.update c clientStatePreRemove (clients p)\<rparr>"
  have "hasExternalSource ?p = hasExternalSource p" by (simp add: hasExternalSource_def)
  moreover have "invSourceClose ?p"
    using a hasClients_mark [where p = p and c = c]
    by (auto simp: invSourceClose_def sourceCloseAllowed_def hasExternalSource_def)
  ultimately show "(hasExternalSource ?p \<longrightarrow> (\<forall>k. source ?p \<noteq> ClientSource k)) \<and> invSourceClose ?p"
    using a by simp
next
  fix p x r
  assume a: "(hasExternalSource p \<longrightarrow> (\<forall>k. source p \<noteq> ClientSource k)) \<and> invSourceClose p"
  let ?p = "p\<lparr>countReaders := x, readers := r\<rparr>"
  have "invSourceClose ?p = invSourceClose p" by (rule invSourceClose_cong) simp_all
  then show "(hasExternalSource ?p \<longrightarrow> (\<forall>k. source ?p \<noteq> ClientSource k)) \<and> invSourceClose ?p"
    using a by (simp add: hasExternalSource_def)
next
  fix p x
  assume a: "(hasExternalSource p \<longrightarrow> (\<forall>k. source p \<noteq> ClientSource k)) \<and> invSourceClose p"
  let ?p = "p\<lparr>countPublishers := x\<rparr>"
  have "invSourceClose ?p = invSourceClose p" by (rule invSourceClose_cong) simp_all
  then show "(hasExternalSource ?p \<longrightarrow> (\<forall>k. source ?p \<noteq> ClientSource k)) \<and> invSourceClose ?p"
    using a by (simp add: hasExternalSource_def)
next
  fix p
  assume a: "(hasExternalSource p \<longrightarrow> (\<forall>k. source p \<noteq> ClientSource k)) \<and> invSourceClose p"
  let ?p = "p\<lparr>sourceState := sourceStateNotReady\<rparr>"
  have "invSourceClose ?p"
    using a by (auto simp: invSourceClose_def sourceCloseAllowed_def hasExternalSource_def
        hasClients_def)
  then show "(hasExternalSource ?p \<longrightarrow> (\<forall>k. source ?p \<noteq> ClientSource k)) \<and> invSourceClose ?p"
    using a by (simp add: hasExternalSource_def)
next
  fix p c
  assume a: "(hasExternalSource p \<longrightarrow> (\<forall>k. source p \<noteq> ClientSource k)) \<and> invSourceClose p"
    and s: "source p = ClientSource c"
  let ?p = "p\<lparr>source := NoSource\<rparr>"
  from a s have ne: "\<not> hasExternalSource p" by auto
  with a have "\<not> sourceCloseTimerStarted p"
    by (auto simp: invSourceClose_def sourceCloseAllowed_def)
  with a have "invSourceClose ?p" by (auto simp: invSourceClose_def)
  then show "(hasExternalSource ?p \<longrightarrow> (\<forall>k. source ?p \<noteq> ClientSource k)) \<and> invSourceClose ?p"
    by simp
next
  fix p x
  assume a: "(hasExternalSource p \<longrightarrow> (\<forall>k. source p \<noteq> ClientSource k)) \<and> invSourceClose p"
  have "invSourceClose (emit x p) = invSourceClose p" by (rule invSourceClose_cong) simp_all
  then show "(hasExternalSource (emit x p) \<longrightarrow> (\<forall>k. source (emit x p) \<noteq> ClientSource k))
             \<and> invSourceClose (emit x p)"
    using a by (simp add: hasExternalSource_def)
next
  fix p
  assume a: "(hasExternalSource p \<longrightarrow> (\<forall>k. source p \<noteq> ClientSource k)) \<and> invSourceClose p"
  then show "(hasExternalSource (scheduleAll p) \<longrightarrow> (\<forall>k. source (scheduleAll p) \<noteq> ClientSource k))
             \<and> invSourceClose (scheduleAll p)"
    using invSourceClose_scheduleAll [of p] by (simp add: hasExternalSource_def)
qed

subsection \<open>Every branch of the loop keeps the invariant\<close>

lemma invSource_cong:
  "conf p' = conf p \<Longrightarrow> clients p' = clients p \<Longrightarrow> source p' = source p
     \<Longrightarrow> invSource p' = invSource p"
  by (simp add: invSource_def hasExternalSource_def)

lemma invWaiting_cong:
  "clients p' = clients p \<Longrightarrow> sourceState p' = sourceState p \<Longrightarrow> invWaiting p' = invWaiting p"
  by (simp add: invWaiting_def)

lemma invSdp_cong:
  "clients p' = clients p \<Longrightarrow> sourceState p' = sourceState p \<Longrightarrow> sourceSdp p' = sourceSdp p
     \<Longrightarrow> sourceTrackCount p' = sourceTrackCount p \<Longrightarrow> invSdp p' = invSdp p"
  by (simp add: invSdp_def)

lemma inv_cong:
  assumes "conf p' = conf p" "clients p' = clients p" "source p' = source p"
    "sourceState p' = sourceState p" "sourceSdp p' = sourceSdp p"
    "sourceTrackCount p' = sourceTrackCount p" "sourceCloseTimer p' = sourceCloseTimer p"
    "sourceCloseTimerStarted p' = sourceCloseTimerStarted p"
  shows "pathInv p' = pathInv p"
  unfolding pathInv_def
  using invSource_cong [OF assms(1,2,3)] invWaiting_cong [OF assms(2,4)]
    invSdp_cong [OF assms(2,4,5,6)] invSourceClose_cong [OF assms(1,2,3,4,7,8)] assms(2)
  by simp

lemma inv_emit: "pathInv (emit x p) = pathInv p"
  by (rule inv_cong) simp_all

lemma inv_scheduleAll:
  assumes "pathInv p"
  shows "pathInv (scheduleAll p)"
proof -
  have "invSource (scheduleAll p) = invSource p" by (rule invSource_cong) simp_all
  moreover have "invWaiting (scheduleAll p) = invWaiting p" by (rule invWaiting_cong) simp_all
  moreover have "invSdp (scheduleAll p) = invSdp p" by (rule invSdp_cong) simp_all
  ultimately show ?thesis using assms invSourceClose_scheduleAll [of p] by (simp add: pathInv_def)
qed

lemma invSource_evolves:
  assumes e: "evolves pa pa'" and k: "keepsSource pa pa'" and i: "invSource pa"
  shows "invSource pa'"
  unfolding invSource_def
proof (intro conjI allI impI)
  fix c st
  assume st: "map_of (clients pa') c = Some st" and pub: "isPublisher st"
  from pub have ne: "st \<noteq> clientStatePreRemove" by (auto simp: isPublisher_def)
  with evolves_state [OF e st] have old: "map_of (clients pa) c = Some st" by simp
  with i pub have src: "source pa = ClientSource c" by (simp add: invSource_def)
  show "source pa' = ClientSource c"
  proof (rule ccontr)
    assume "source pa' \<noteq> ClientSource c"
    with evolves_source [OF e] src have "map_of (clients pa') c = Some clientStatePreRemove"
      by auto
    with st ne show False by simp
  qed
next
  fix c assume s: "source pa' = ClientSource c"
  with evolves_source [OF e] have "source pa = ClientSource c" by auto
  with i obtain st where "map_of (clients pa) c = Some st" "isPublisher st"
    by (auto simp: invSource_def)
  moreover from k s have "map_of (clients pa') c = map_of (clients pa) c"
    by (simp add: keepsSource_def)
  ultimately show "\<exists>st. map_of (clients pa') c = Some st \<and> isPublisher st" by simp
next
  fix c assume h: "hasExternalSource pa'"
  have "hasExternalSource pa' = hasExternalSource pa"
    by (rule hasExternalSource_cong) (rule evolves_fields [OF e])
  with h i have "\<forall>c. source pa \<noteq> ClientSource c" by (simp add: invSource_def)
  with evolves_source [OF e] show "source pa' \<noteq> ClientSource c" by auto
qed

lemma invWaiting_evolves:
  assumes e: "evolves pa pa'" and i: "invWaiting pa"
  shows "invWaiting pa'"
  unfolding invWaiting_def
proof (intro allI impI)
  fix c assume w: "map_of (clients pa') c = Some clientStateWaitingDescribe"
  from evolves_state [OF e w] have "map_of (clients pa) c = Some clientStateWaitingDescribe"
    by simp
  with i have "sourceState pa = sourceStateWaitingDescribe" unfolding invWaiting_def by blast
  with evolves_sourceState [OF e] w show "sourceState pa' = sourceStateWaitingDescribe" by auto
qed

lemma invSdp_evolves:
  assumes e: "evolves pa pa'" and i: "invSdp pa"
  shows "invSdp pa'"
proof -
  note f = evolves_fields [OF e]
  have n: "sourceSdp pa = None \<Longrightarrow> sourceState pa' \<noteq> sourceStateReady
        \<and> (\<forall>c. map_of (clients pa') c \<noteq> Some clientStatePreRecord)"
  proof -
    assume "sourceSdp pa = None"
    with i have a: "sourceState pa \<noteq> sourceStateReady"
      "\<forall>c. map_of (clients pa) c \<noteq> Some clientStatePreRecord"
      by (simp_all add: invSdp_def)
    from a(1) evolves_sourceState [OF e] have "sourceState pa' \<noteq> sourceStateReady" by auto
    moreover have "\<forall>c. map_of (clients pa') c \<noteq> Some clientStatePreRecord"
      using evolves_state [OF e] a(2) by fastforce
    ultimately show ?thesis by simp
  qed
  from i n show ?thesis unfolding invSdp_def f(3) f(4) by blast
qed

lemma removeClient_inv:
  assumes run: "removeClient c pa = Ok pa'"
    and d: "distinct (map fst (clients pa))" and s: "invSource pa" and t: "invSourceClose pa"
    and sd: "invSdp pa"
  shows "distinct (map fst (clients pa'))" "invSource pa'" "invSourceClose pa'" "invSdp pa'"
    "evolves pa pa'" "map_of (clients pa') c = Some clientStatePreRemove"
proof -
  from removeClient_evolves [OF run]
  have e: "evolves pa pa'" and k: "keepsSource pa pa'"
    and c: "map_of (clients pa') c = Some clientStatePreRemove" by simp_all
  from s have "hasExternalSource pa \<longrightarrow> (\<forall>k. source pa \<noteq> ClientSource k)"
    by (simp add: invSource_def)
  with t removeClientFuel_timer [OF run [unfolded removeClient_def]]
  show "invSourceClose pa'" by simp
  show "distinct (map fst (clients pa'))" using evolves_distinct [OF e d] .
  show "invSource pa'" using invSource_evolves [OF e k s] .
  show "invSdp pa'" using invSdp_evolves [OF e sd] .
  show "evolves pa pa'" using e .
  show "map_of (clients pa') c = Some clientStatePreRemove" using c .
qed

text \<open>The two loops that answer the waiting describers.\<close>

lemma describers_loop:
  assumes run: "rangeClients
       (\<lambda>c state pa.
          if state = clientStateWaitingDescribe
            then andThen (removeClient c pa) (\<lambda>pa. Ok (emit (f c pa) pa))
          else Ok pa) pa = Ok pa'"
  shows "evolves pa pa' \<and> keepsSource pa pa'"
    and "\<forall>k. map_of (clients pa') k \<noteq> Some clientStateWaitingDescribe"
    and "(hasExternalSource pa \<longrightarrow> (\<forall>k. source pa \<noteq> ClientSource k)) \<and> invSourceClose pa
         \<Longrightarrow> invSourceClose pa'"
proof -
  define body where "body = (\<lambda>c state pa.
          if state = clientStateWaitingDescribe
            then andThen (removeClient c pa) (\<lambda>pa. Ok (emit (f c pa) pa))
          else Ok pa)"
  from run have loop: "rangeClients body pa = Ok pa'" by (simp add: body_def)
  have bodyD: "\<And>c st p p'. body c st p = Ok p' \<Longrightarrow>
      (st \<noteq> clientStateWaitingDescribe \<and> p' = p)
      \<or> (st = clientStateWaitingDescribe \<and> (\<exists>q. removeClient c p = Ok q \<and> p' = emit (f c q) q))"
    by (auto simp: body_def andThen_Ok_iff split: if_splits)
  have bodyE: "\<And>c st p p'. body c st p = Ok p' \<Longrightarrow> evolves p p' \<and> keepsSource p p'"
  proof -
    fix c st p p' assume b: "body c st p = Ok p'"
    from bodyD [OF b] show "evolves p p' \<and> keepsSource p p'"
    proof
      assume "st \<noteq> clientStateWaitingDescribe \<and> p' = p"
      then show ?thesis by simp
    next
      assume "st = clientStateWaitingDescribe
              \<and> (\<exists>q. removeClient c p = Ok q \<and> p' = emit (f c q) q)"
      then obtain q where q: "removeClient c p = Ok q" "p' = emit (f c q) q" by auto
      from removeClient_evolves [OF q(1)] have pq: "evolves p q" "keepsSource p q" by simp_all
      have qp: "evolves q p'" "keepsSource q p'" using q(2) by simp_all
      show ?thesis using evolves_trans [OF pq(1) qp(1)] keepsSource_trans [OF pq(2) qp(1) qp(2)]
        by simp
    qed
  qed
  show ev: "evolves pa pa' \<and> keepsSource pa pa'"
  proof (rule rangeClients_rule [where I = "\<lambda>p. evolves pa p \<and> keepsSource pa p", OF loop])
    show "evolves pa pa \<and> keepsSource pa pa" by simp
  next
    fix c st p p'
    assume I: "evolves pa p \<and> keepsSource pa p" and b: "body c st p = Ok p'"
    from bodyE [OF b] have e: "evolves p p'" "keepsSource p p'" by simp_all
    show "evolves pa p' \<and> keepsSource pa p'"
      using I evolves_trans [OF _ e(1)] keepsSource_trans [OF _ e(1) e(2)] by blast
  qed
  show "\<forall>k. map_of (clients pa') k \<noteq> Some clientStateWaitingDescribe"
  proof (intro allI notI)
    fix k assume w: "map_of (clients pa') k = Some clientStateWaitingDescribe"
    from evolves_state [OF conjunct1 [OF ev] w]
    have "map_of (clients pa) k = Some clientStateWaitingDescribe" by simp
    then have k0: "map_of (clients pa) k \<noteq> None" by simp
    have "map_of (clients pa') k \<noteq> Some clientStateWaitingDescribe"
    proof (rule rangeClients_visits
        [where Q = "\<lambda>p. map_of (clients p) k \<noteq> Some clientStateWaitingDescribe", OF loop k0])
      fix p :: Path assume "map_of (clients p) k = None"
      then show "map_of (clients p) k \<noteq> Some clientStateWaitingDescribe" by simp
    next
      fix st p p'
      assume st: "map_of (clients p) k = Some st" and b: "body k st p = Ok p'"
      from bodyD [OF b] show "map_of (clients p') k \<noteq> Some clientStateWaitingDescribe"
      proof
        assume "st \<noteq> clientStateWaitingDescribe \<and> p' = p"
        with st show ?thesis by simp
      next
        assume "st = clientStateWaitingDescribe
              \<and> (\<exists>q. removeClient k p = Ok q \<and> p' = emit (f k q) q)"
        then obtain q where q: "removeClient k p = Ok q" "p' = emit (f k q) q" by auto
        from removeClient_evolves [OF q(1)] q(2) show ?thesis by simp
      qed
    next
      fix c st p p'
      assume "map_of (clients p) k \<noteq> Some clientStateWaitingDescribe" and b: "body c st p = Ok p'"
      then show "map_of (clients p') k \<noteq> Some clientStateWaitingDescribe"
        using evolves_notWaiting [OF conjunct1 [OF bodyE [OF b]]] by simp
    qed
    with w show False by simp
  qed
  show "invSourceClose pa'"
    if pre: "(hasExternalSource pa \<longrightarrow> (\<forall>k. source pa \<noteq> ClientSource k)) \<and> invSourceClose pa"
  proof -
    have "(hasExternalSource pa' \<longrightarrow> (\<forall>k. source pa' \<noteq> ClientSource k)) \<and> invSourceClose pa'"
    proof (rule rangeClients_rule
        [where I = "\<lambda>p. (hasExternalSource p \<longrightarrow> (\<forall>k. source p \<noteq> ClientSource k))
                         \<and> invSourceClose p", OF loop pre])
      fix c st p p'
      assume I: "(hasExternalSource p \<longrightarrow> (\<forall>k. source p \<noteq> ClientSource k)) \<and> invSourceClose p"
        and b: "body c st p = Ok p'"
      from bodyD [OF b]
      show "(hasExternalSource p' \<longrightarrow> (\<forall>k. source p' \<noteq> ClientSource k)) \<and> invSourceClose p'"
      proof
        assume "st \<noteq> clientStateWaitingDescribe \<and> p' = p"
        with I show ?thesis by simp
      next
        assume "st = clientStateWaitingDescribe
              \<and> (\<exists>q. removeClient c p = Ok q \<and> p' = emit (f c q) q)"
        then obtain q where q: "removeClient c p = Ok q" "p' = emit (f c q) q" by auto
        from removeClientFuel_timer [OF q(1) [unfolded removeClient_def] I]
        have iq: "(hasExternalSource q \<longrightarrow> (\<forall>k. source q \<noteq> ClientSource k)) \<and> invSourceClose q" .
        have "invSourceClose p' = invSourceClose q"
          unfolding q(2) by (rule invSourceClose_cong) simp_all
        moreover have "hasExternalSource p' = hasExternalSource q"
          unfolding q(2) by (rule hasExternalSource_cong) simp
        ultimately show ?thesis using iq q(2) by simp
      qed
    qed
    then show ?thesis by simp
  qed
qed

lemma describers_loop_inv:
  assumes run: "rangeClients
       (\<lambda>c state pa.
          if state = clientStateWaitingDescribe
            then andThen (removeClient c pa) (\<lambda>pa. Ok (emit (f c pa) pa))
          else Ok pa) pa = Ok pa'"
    and d: "distinct (map fst (clients pa))" and s: "invSource pa" and t: "invSourceClose pa"
    and sd: "invSdp pa"
  shows "pathInv pa'" "evolves pa pa'"
proof -
  note l = describers_loop [OF run]
  from l(1) have e: "evolves pa pa'" and k: "keepsSource pa pa'" by simp_all
  from s have "hasExternalSource pa \<longrightarrow> (\<forall>k. source pa \<noteq> ClientSource k)"
    by (simp add: invSource_def)
  with t l(3) have "invSourceClose pa'" by simp
  moreover have "invWaiting pa'" using l(2) by (simp add: invWaiting_def)
  ultimately show "pathInv pa'"
    using evolves_distinct [OF e d] invSource_evolves [OF e k s] invSdp_evolves [OF e sd]
    by (simp add: pathInv_def)
  show "evolves pa pa'" using e .
qed

lemma onSourceSetNotReady_inv:
  assumes run: "onSourceSetNotReady pa = Ok pa'" and i: "pathInv pa"
  shows "pathInv pa'"
proof -
  from onSourceSetNotReady_evolves [OF run]
  have e: "evolves pa pa'" and k: "keepsSource pa pa'"
    and nw: "\<forall>k. map_of (clients pa') k \<noteq> Some clientStateWaitingDescribe" by simp_all
  from i have d: "distinct (map fst (clients pa))" and s: "invSource pa"
    and t: "invSourceClose pa" and sd: "invSdp pa" by (simp_all add: pathInv_def)
  define p0 where "p0 = pa\<lparr>sourceState := sourceStateNotReady\<rparr>"
  have pre: "(hasExternalSource p0 \<longrightarrow> (\<forall>k. source p0 \<noteq> ClientSource k)) \<and> invSourceClose p0"
    using s t by (auto simp: p0_def invSource_def invSourceClose_def sourceCloseAllowed_def
        hasExternalSource_def hasClients_def)
  from run have loop: "rangeClients
       (\<lambda>c state pa.
          if state = clientStateWaitingDescribe then Panic ''not possible''
          else if ClientSource c \<noteq> source pa \<and> state \<noteq> clientStatePreRemove
            then andThen (removeClient c pa) (\<lambda>pa. Ok (emit (OnPathClientClose c) pa))
          else Ok pa) p0 = Ok pa'"
    by (simp add: onSourceSetNotReady_def onSourceSetNotReadyWith_def p0_def)
  have "(hasExternalSource pa' \<longrightarrow> (\<forall>k. source pa' \<noteq> ClientSource k)) \<and> invSourceClose pa'"
  proof (rule rangeClients_rule
        [where I = "\<lambda>p. (hasExternalSource p \<longrightarrow> (\<forall>k. source p \<noteq> ClientSource k))
                         \<and> invSourceClose p", OF loop pre])
    fix c st p p'
    assume I: "(hasExternalSource p \<longrightarrow> (\<forall>k. source p \<noteq> ClientSource k)) \<and> invSourceClose p"
      and b: "(if st = clientStateWaitingDescribe then Panic ''not possible''
          else if ClientSource c \<noteq> source p \<and> st \<noteq> clientStatePreRemove
            then andThen (removeClient c p) (\<lambda>pa. Ok (emit (OnPathClientClose c) pa))
          else Ok p) = Ok p'"
    show "(hasExternalSource p' \<longrightarrow> (\<forall>k. source p' \<noteq> ClientSource k)) \<and> invSourceClose p'"
    proof (cases "st \<noteq> clientStateWaitingDescribe
                  \<and> ClientSource c \<noteq> source p \<and> st \<noteq> clientStatePreRemove")
      case True
      with b obtain q where q: "removeClient c p = Ok q" "p' = emit (OnPathClientClose c) q"
        by (auto simp: andThen_Ok_iff)
      from removeClientFuel_timer [OF q(1) [unfolded removeClient_def] I]
      have iq: "(hasExternalSource q \<longrightarrow> (\<forall>k. source q \<noteq> ClientSource k)) \<and> invSourceClose q" .
      have "invSourceClose p' = invSourceClose q"
        unfolding q(2) by (rule invSourceClose_cong) simp_all
      moreover have "hasExternalSource p' = hasExternalSource q"
        unfolding q(2) by (rule hasExternalSource_cong) simp
      ultimately show ?thesis using iq q(2) by simp
    next
      case False
      with b have "p' = p" by (auto split: if_splits)
      with I show ?thesis by simp
    qed
  qed
  moreover have "invWaiting pa'" using nw by (simp add: invWaiting_def)
  ultimately show ?thesis
    using evolves_distinct [OF e d] invSource_evolves [OF e k s] invSdp_evolves [OF e sd]
    by (simp add: pathInv_def)
qed

lemma invSourceClose_off:
  "\<not> sourceCloseTimerStarted p \<Longrightarrow> sourceCloseTimer p = None \<Longrightarrow> invSourceClose p"
  by (simp add: invSourceClose_def)

lemma invSourceClose_sourceState:
  assumes "invSourceClose p" and "st \<noteq> sourceStateWaitingDescribe"
  shows "invSourceClose (p\<lparr>sourceState := st\<rparr>)"
  using assms
  by (simp add: invSourceClose_def sourceCloseAllowed_def hasExternalSource_def hasClients_def)

lemma invSdp_notReady:
  assumes "invSdp p"
  shows "invSdp (p\<lparr>sourceState := sourceStateNotReady\<rparr>)"
  using assms by (simp add: invSdp_def)

lemma onDescribeTimer_inv:
  assumes run: "onDescribeTimer pa = Ok pa'" and i: "pathInv pa"
  shows "pathInv pa'"
proof -
  define p0 where "p0 = pa\<lparr>describeTimer := None\<rparr>"
  from run obtain p1 where loop: "timeOutDescribers p0 = Ok p1"
    and fin: "pa' = scheduleAll (p1\<lparr>sourceState := sourceStateNotReady\<rparr>)"
    by (auto simp: onDescribeTimer_def andThen_Ok_iff p0_def)
  have "pathInv p0 = pathInv pa" unfolding p0_def by (rule inv_cong) simp_all
  with i have i0: "distinct (map fst (clients p0))" "invSource p0" "invSourceClose p0" "invSdp p0"
    by (simp_all add: pathInv_def)
  note l = loop [unfolded timeOutDescribers_def]
  from describers_loop_inv [OF l i0] have i1: "pathInv p1" by simp
  from describers_loop(2) [OF l]
  have nw: "\<forall>k. map_of (clients p1) k \<noteq> Some clientStateWaitingDescribe" .
  let ?p2 = "p1\<lparr>sourceState := sourceStateNotReady\<rparr>"
  have "invSource ?p2 = invSource p1" by (rule invSource_cong) simp_all
  moreover have "invWaiting ?p2" using nw by (simp add: invWaiting_def)
  moreover have "invSourceClose ?p2" using i1 by (simp add: pathInv_def invSourceClose_sourceState)
  moreover have "invSdp ?p2" using i1 by (simp add: pathInv_def invSdp_notReady)
  ultimately have "pathInv ?p2" using i1 by (simp add: pathInv_def)
  then show ?thesis unfolding fin by (rule inv_scheduleAll)
qed

lemma onSourceSetReady_inv:
  assumes run: "onSourceSetReady p = Ok pa'"
    and d: "distinct (map fst (clients p))" and s: "invSource p" and t: "invSourceClose p"
    and sd: "\<exists>ts. sourceSdp p = Some (TracksWrite ts) \<and> sourceTrackCount p = int (length ts)"
  shows "pathInv pa'"
proof -
  define p1 where "p1 = (if sourceState p = sourceStateWaitingDescribe
                   then p\<lparr>describeTimer := None\<rparr> else p)"
  define p2 where "p2 = p1\<lparr>sourceState := sourceStateReady\<rparr>"
  from run obtain p3 where loop: "replyToDescribers p2 = Ok p3" and fin: "pa' = scheduleAll p3"
    by (auto simp: onSourceSetReady_def Let_def andThen_Ok_iff p1_def p2_def)
  have f1: "clients p1 = clients p" "source p1 = source p" "conf p1 = conf p"
    "sourceSdp p1 = sourceSdp p" "sourceTrackCount p1 = sourceTrackCount p"
    "sourceCloseTimer p1 = sourceCloseTimer p"
    "sourceCloseTimerStarted p1 = sourceCloseTimerStarted p" "sourceState p1 = sourceState p"
    by (simp_all add: p1_def)
  have "invSourceClose p1 = invSourceClose p" by (rule invSourceClose_cong) (simp_all add: f1)
  with t have t2: "invSourceClose p2" unfolding p2_def by (simp add: invSourceClose_sourceState)
  have "invSource p2 = invSource p" by (rule invSource_cong) (simp_all add: p2_def f1)
  with s have s2: "invSource p2" by simp
  have d2: "distinct (map fst (clients p2))" using d by (simp add: p2_def f1)
  have sd2: "invSdp p2" using sd by (auto simp: invSdp_def p2_def f1)
  from describers_loop_inv [OF loop [unfolded replyToDescribers_def] d2 s2 t2 sd2]
  have "pathInv p3" by simp
  then show ?thesis unfolding fin by (rule inv_scheduleAll)
qed

lemma onSourceCloseTimer_inv:
  assumes run: "onSourceCloseTimer pa = Ok pa'" and i: "pathInv pa"
  shows "pathInv pa'"
proof -
  define p1 where "p1 = pa\<lparr>sourceCloseTimer := None, sourceCloseTimerStarted := False,
                            source := NoSource\<rparr>"
  from run have ext: "isSourceExternal (source pa)" and fin: "pa' = scheduleClose p1"
    by (auto simp: onSourceCloseTimer_def Let_def p1_def split: if_splits)
  from i have d: "distinct (map fst (clients pa))" and s: "invSource pa"
    and w: "invWaiting pa" and sd: "invSdp pa" by (simp_all add: pathInv_def)
  have nopub: "\<And>c st. map_of (clients pa) c = Some st \<Longrightarrow> \<not> isPublisher st"
  proof
    fix c st assume "map_of (clients pa) c = Some st" "isPublisher st"
    with s have "source pa = ClientSource c" by (simp add: invSource_def)
    with ext show False by simp
  qed
  have "invSource p1" using nopub by (simp add: invSource_def p1_def)
  moreover have "invWaiting p1 = invWaiting pa" by (rule invWaiting_cong) (simp_all add: p1_def)
  moreover have "invSdp p1 = invSdp pa" by (rule invSdp_cong) (simp_all add: p1_def)
  moreover have "invSourceClose p1" by (rule invSourceClose_off) (simp_all add: p1_def)
  ultimately have i1: "pathInv p1" using d w sd by (simp add: pathInv_def p1_def)
  have "pathInv (scheduleClose p1) = pathInv p1" by (rule inv_cong) (simp_all add: scheduleClose_def)
  with i1 show ?thesis by (simp add: fin)
qed

lemma onRunOnDemandCloseTimer_inv:
  assumes run: "onRunOnDemandCloseTimer pa = Ok pa'" and i: "pathInv pa"
  shows "pathInv pa'"
proof -
  define p1 where "p1 = pa\<lparr>runOnDemandCloseTimer := None, runOnDemandCloseTimerStarted := False,
                            onDemandCmd := None\<rparr>"
  from run have fin: "pa' = scheduleClose p1"
    by (auto simp: onRunOnDemandCloseTimer_def Let_def p1_def split: if_splits)
  have "pathInv p1 = pathInv pa" by (rule inv_cong) (simp_all add: p1_def)
  moreover have "pathInv (scheduleClose p1) = pathInv p1"
    by (rule inv_cong) (simp_all add: scheduleClose_def)
  ultimately show ?thesis using i by (simp add: fin)
qed

lemma invWaitingD:
  "invWaiting p \<Longrightarrow> map_of (clients p) c = Some clientStateWaitingDescribe
     \<Longrightarrow> sourceState p = sourceStateWaitingDescribe"
  unfolding invWaiting_def by blast

lemma invSourceD:
  assumes "invSource p"
  shows "map_of (clients p) c = Some st \<Longrightarrow> isPublisher st \<Longrightarrow> source p = ClientSource c"
    and "source p = ClientSource c \<Longrightarrow> \<exists>st. map_of (clients p) c = Some st \<and> isPublisher st"
    and "hasExternalSource p \<Longrightarrow> source p \<noteq> ClientSource c"
  using assms unfolding invSource_def by blast+

lemma map_of_snoc:
  "map_of (cs @ [(c, st)]) k
     = (case map_of cs k of Some v \<Rightarrow> Some v | None \<Rightarrow> if k = c then Some st else None)"
  by (simp add: map_add_def split: option.splits)

lemma distinct_snoc:
  "distinct (map fst cs) \<Longrightarrow> map_of cs c = None \<Longrightarrow> distinct (map fst (cs @ [(c, st)]))"
  by (simp add: map_of_eq_None_iff)

lemma addClient_Ok:
  "addClient c st p = Ok p'
     \<longleftrightarrow> map_of (clients p) c = None \<and> p' = p\<lparr>clients := clients p @ [(c, st)]\<rparr>"
  by (auto simp: addClient_def)

lemma cancelCloseTimers_frame [simp]:
  "clients (cancelCloseTimers p) = clients p"
  "source (cancelCloseTimers p) = source p"
  "sourceState (cancelCloseTimers p) = sourceState p"
  "conf (cancelCloseTimers p) = conf p"
  "name (cancelCloseTimers p) = name p"
  "sourceSdp (cancelCloseTimers p) = sourceSdp p"
  "sourceTrackCount (cancelCloseTimers p) = sourceTrackCount p"
  "describeTimer (cancelCloseTimers p) = describeTimer p"
  "onDemandCmd (cancelCloseTimers p) = onDemandCmd p"
  "trace (cancelCloseTimers p) = trace p"
  "countReaders (cancelCloseTimers p) = countReaders p"
  "countPublishers (cancelCloseTimers p) = countPublishers p"
  "readers (cancelCloseTimers p) = readers p"
  "sourceCloseTimerStarted (cancelCloseTimers p) = False"
  by (simp_all add: cancelCloseTimers_def Let_def)

lemma cancelCloseTimers_timer:
  "sourceCloseTimer p \<noteq> None \<longrightarrow> sourceCloseTimerStarted p
     \<Longrightarrow> sourceCloseTimer (cancelCloseTimers p) = None"
  by (auto simp: cancelCloseTimers_def Let_def)

lemma startExternalSource_frame [simp]:
  "clients (startExternalSource p) = clients p"
  "sourceState (startExternalSource p) = sourceState p"
  "conf (startExternalSource p) = conf p"
  "name (startExternalSource p) = name p"
  "sourceSdp (startExternalSource p) = sourceSdp p"
  "sourceTrackCount (startExternalSource p) = sourceTrackCount p"
  "onDemandCmd (startExternalSource p) = onDemandCmd p"
  "trace (startExternalSource p) = trace p"
  "sourceCloseTimerStarted (startExternalSource p) = sourceCloseTimerStarted p"
  "sourceCloseTimer (startExternalSource p) = sourceCloseTimer p"
  by (simp_all add: startExternalSource_def)

lemma startExternalSource_source:
  "hasExternalSource p \<Longrightarrow> isSourceExternal (source (startExternalSource p))"
  by (auto simp: startExternalSource_def hasExternalSource_def)

lemma startOnDemandSource_frame [simp]:
  "clients (startOnDemandSource p) = clients p"
  "conf (startOnDemandSource p) = conf p"
  "name (startOnDemandSource p) = name p"
  "sourceSdp (startOnDemandSource p) = sourceSdp p"
  "sourceTrackCount (startOnDemandSource p) = sourceTrackCount p"
  "onDemandCmd (startOnDemandSource p) = onDemandCmd p"
  "trace (startOnDemandSource p) = trace p"
  "sourceCloseTimerStarted (startOnDemandSource p) = sourceCloseTimerStarted p"
  "sourceCloseTimer (startOnDemandSource p) = sourceCloseTimer p"
  by (simp_all add: startOnDemandSource_def Let_def)

lemma startOnDemandSource_source:
  "source (startOnDemandSource p) = source p
   \<or> source p = NoSource \<and> hasExternalSource p \<and> isSourceExternal (source (startOnDemandSource p))"
  using startExternalSource_source [of p] by (simp add: startOnDemandSource_def Let_def)

lemma startOnDemandSource_sourceState:
  "sourceState (startOnDemandSource p) = sourceState p
   \<or> sourceState (startOnDemandSource p) = sourceStateWaitingDescribe"
  by (simp add: startOnDemandSource_def Let_def)

lemma startOnDemandCmd_frame [simp]:
  "clients (startOnDemandCmd p) = clients p"
  "source (startOnDemandCmd p) = source p"
  "conf (startOnDemandCmd p) = conf p"
  "name (startOnDemandCmd p) = name p"
  "sourceSdp (startOnDemandCmd p) = sourceSdp p"
  "sourceTrackCount (startOnDemandCmd p) = sourceTrackCount p"
  "trace (startOnDemandCmd p) = trace p"
  "sourceCloseTimerStarted (startOnDemandCmd p) = sourceCloseTimerStarted p"
  "sourceCloseTimer (startOnDemandCmd p) = sourceCloseTimer p"
  by (simp_all add: startOnDemandCmd_def Let_def)

lemma startOnDemandCmd_sourceState:
  "sourceState (startOnDemandCmd p) = sourceState p
   \<or> sourceState (startOnDemandCmd p) = sourceStateWaitingDescribe"
  by (simp add: startOnDemandCmd_def Let_def)

text \<open>The path after the first three steps of \<^verbatim>\<open>onClientDescribe\<close>.\<close>

lemma describe_prepare:
  assumes i: "pathInv pa"
  defines "p \<equiv> startOnDemandCmd (startOnDemandSource (cancelCloseTimers pa))"
  shows "clients p = clients pa" "invSource p" "invWaiting p" "invSdp p"
    "\<not> sourceCloseTimerStarted p" "sourceCloseTimer p = None"
proof -
  define c1 where "c1 = cancelCloseTimers pa"
  define c2 where "c2 = startOnDemandSource c1"
  have p: "p = startOnDemandCmd c2" by (simp add: p_def c1_def c2_def)
  from i have s: "invSource pa" and w: "invWaiting pa" and sd: "invSdp pa"
    and t: "invSourceClose pa" by (simp_all add: pathInv_def)
  show cl: "clients p = clients pa" by (simp add: p c2_def c1_def)
  show "\<not> sourceCloseTimerStarted p" by (simp add: p c2_def c1_def)
  from t have "sourceCloseTimer pa \<noteq> None \<longrightarrow> sourceCloseTimerStarted pa"
    by (simp add: invSourceClose_def)
  from cancelCloseTimers_timer [OF this] show "sourceCloseTimer p = None"
    by (simp add: p c2_def c1_def)
  have src: "source p = source pa
     \<or> source pa = NoSource \<and> hasExternalSource pa \<and> isSourceExternal (source p)"
    using startOnDemandSource_source [of c1]
    by (simp add: p c2_def c1_def hasExternalSource_def)
  have st: "sourceState p = sourceState pa \<or> sourceState p = sourceStateWaitingDescribe"
    using startOnDemandSource_sourceState [of c1] startOnDemandCmd_sourceState [of c2]
    by (auto simp: p c2_def c1_def)
  have he: "hasExternalSource p = hasExternalSource pa"
    by (rule hasExternalSource_cong) (simp add: p c2_def c1_def)
  show "invSource p"
    unfolding invSource_def
  proof (intro conjI allI impI)
    fix c st' assume "map_of (clients p) c = Some st'" "isPublisher st'"
    with s cl have "source pa = ClientSource c" by (simp add: invSource_def)
    with src show "source p = ClientSource c" by auto
  next
    fix c assume a: "source p = ClientSource c"
    with src have "source pa = ClientSource c" by auto
    with s cl show "\<exists>st. map_of (clients p) c = Some st \<and> isPublisher st"
      by (simp add: invSource_def)
  next
    fix c assume h: "hasExternalSource p"
    with he s have "\<forall>c. source pa \<noteq> ClientSource c" by (simp add: invSource_def)
    with src show "source p \<noteq> ClientSource c" by auto
  qed
  show "invWaiting p"
    unfolding invWaiting_def
  proof (intro allI impI)
    fix c assume "map_of (clients p) c = Some clientStateWaitingDescribe"
    with w cl have "sourceState pa = sourceStateWaitingDescribe"
      by (simp add: invWaitingD)
    with st show "sourceState p = sourceStateWaitingDescribe" by auto
  qed
  have f: "sourceSdp p = sourceSdp pa" "sourceTrackCount p = sourceTrackCount pa"
    by (simp_all add: p c2_def c1_def)
  from sd st show "invSdp p" unfolding invSdp_def f cl by auto
qed

lemma addClient_inv:
  assumes add: "addClient c st p = Ok p'"
    and d: "distinct (map fst (clients p))" and s: "invSource p" and w: "invWaiting p"
    and sd: "invSdp p"
    and off: "\<not> sourceCloseTimerStarted p" "sourceCloseTimer p = None"
    and np: "\<not> isPublisher st"
    and wt: "st = clientStateWaitingDescribe \<longrightarrow> sourceState p = sourceStateWaitingDescribe"
  shows "pathInv p'"
proof -
  from add have none: "map_of (clients p) c = None"
    and p': "p' = p\<lparr>clients := clients p @ [(c, st)]\<rparr>" by (simp_all add: addClient_Ok)
  have look: "\<And>k. map_of (clients p') k
     = (case map_of (clients p) k of Some v \<Rightarrow> Some v
        | None \<Rightarrow> if k = c then Some st else None)"
    by (simp add: p' map_add_def split: option.splits)
  have old: "\<And>k v. map_of (clients p') k = Some v \<Longrightarrow> v \<noteq> st \<Longrightarrow> map_of (clients p) k = Some v"
    by (auto simp: look split: option.splits if_splits)
  have keep: "\<And>k v. map_of (clients p) k = Some v \<Longrightarrow> map_of (clients p') k = Some v"
    by (simp add: look)
  have "distinct (map fst (clients p'))" using distinct_snoc [OF d none] by (simp add: p')
  moreover have "invSource p'"
    unfolding invSource_def
  proof (intro conjI allI impI)
    fix k v assume a: "map_of (clients p') k = Some v" "isPublisher v"
    with np have "v \<noteq> st" by auto
    from old [OF a(1) this] a(2) s show "source p' = ClientSource k"
      by (simp add: invSource_def p')
  next
    fix k assume "source p' = ClientSource k"
    with s obtain v where "map_of (clients p) k = Some v" "isPublisher v"
      by (auto simp: invSource_def p')
    with keep show "\<exists>v. map_of (clients p') k = Some v \<and> isPublisher v" by blast
  next
    fix k assume h: "hasExternalSource p'"
    have "hasExternalSource p' = hasExternalSource p"
      by (rule hasExternalSource_cong) (simp add: p')
    with h invSourceD(3) [OF s] show "source p' \<noteq> ClientSource k" by (simp add: p')
  qed
  moreover have "invWaiting p'"
    unfolding invWaiting_def
  proof (intro allI impI)
    fix k assume a: "map_of (clients p') k = Some clientStateWaitingDescribe"
    show "sourceState p' = sourceStateWaitingDescribe"
    proof (cases "st = clientStateWaitingDescribe")
      case True
      with wt show ?thesis by (simp add: p')
    next
      case False
      then have "clientStateWaitingDescribe \<noteq> st" by simp
      from old [OF a this] w show ?thesis by (simp add: p' invWaitingD)
    qed
  qed
  moreover have "invSourceClose p'" by (rule invSourceClose_off) (simp_all add: p' off)
  moreover have "invSdp p'"
  proof -
    have "\<And>k. map_of (clients p) k \<noteq> Some clientStatePreRecord
              \<Longrightarrow> map_of (clients p') k \<noteq> Some clientStatePreRecord"
      using np old by (auto simp: isPublisher_def)
    with sd show ?thesis unfolding invSdp_def by (simp add: p')
  qed
  ultimately show ?thesis by (simp add: pathInv_def)
qed

lemma invD:
  assumes "pathInv p"
  shows "distinct (map fst (clients p))" "invSource p" "invWaiting p" "invSourceClose p"
    "invSdp p"
  using assms by (simp_all add: pathInv_def)

lemma removeClient_inv_full:
  assumes run: "removeClient c p = Ok p'" and i: "pathInv p"
  shows "pathInv p'"
  using removeClient_inv [OF run invD(1,2,4,5) [OF i]]
    invWaiting_evolves [OF _ invD(3) [OF i]]
  by (simp add: pathInv_def)

lemma describeNow_inv:
  assumes run: "describeNow c f p = Ok pa'"
    and d: "distinct (map fst (clients p))" and s: "invSource p" and w: "invWaiting p"
    and sd: "invSdp p"
    and off: "\<not> sourceCloseTimerStarted p" "sourceCloseTimer p = None"
  shows "pathInv pa'"
proof -
  from run obtain p1 p2 where a: "addClient c clientStatePreRemove p = Ok p1"
    and r: "removeClient c p1 = Ok p2" and fin: "pa' = emit (f p2) p2"
    by (auto simp: describeNow_def andThen_Ok_iff)
  have "pathInv p1" by (rule addClient_inv [OF a d s w sd off]) (simp_all add: isPublisher_def)
  from removeClient_inv_full [OF r this] show ?thesis by (simp add: fin inv_emit)
qed

lemma onClientDescribe_inv:
  assumes run: "onClientDescribe c p0 = Ok pa'" and i: "pathInv p0"
  shows "pathInv pa'"
proof -
  define p where "p = startOnDemandCmd (startOnDemandSource (cancelCloseTimers p0))"
  note pr = describe_prepare [OF i, folded p_def]
  have d: "distinct (map fst (clients p))" using invD(1) [OF i] pr(1) by simp
  from run have cases: "(source p = RedirectSource
        \<and> describeNow c (\<lambda>pa. OnPathDescribeData c None (SourceRedirect (conf pa)) None) p
            = Ok pa')
     \<or> (sourceState p = sourceStateReady
        \<and> describeNow c (\<lambda>pa. OnPathDescribeData c (sourceSdp pa) [] None) p = Ok pa')
     \<or> (sourceState p = sourceStateWaitingDescribe
        \<and> addClient c clientStateWaitingDescribe p = Ok pa')
     \<or> (sourceState p = sourceStateNotReady
        \<and> describeNow c (\<lambda>pa. OnPathDescribeData c None []
                              (Some (ErrNoOnePublishing (name pa)))) p = Ok pa')"
    unfolding onClientDescribe_def Let_def p_def [symmetric]
    by (cases "sourceState p") (simp_all split: if_splits)
  then show ?thesis
  proof (elim disjE conjE)
    assume "addClient c clientStateWaitingDescribe p = Ok pa'"
      and "sourceState p = sourceStateWaitingDescribe"
    then show ?thesis
      using addClient_inv [OF _ d pr(2,3,4,5,6)] by (simp add: isPublisher_def)
  qed (rule describeNow_inv [OF _ d pr(2,3,4,5,6)], assumption)+
qed

lemma step_ClientDescribe_inv:
  assumes run: "step (ClientDescribe c) pa = Ok pa'" and i: "pathInv pa"
  shows "pathInv pa'"
proof (cases "map_of (clients pa) c \<noteq> None")
  case True
  with run have "pa' = emit (ClientDescribeRes c (Some ErrAlreadySubscribed)) pa" by auto
  with i show ?thesis by (simp add: inv_emit)
next
  case False
  with run have r: "onClientDescribe c (emit (ClientDescribeRes c None) pa) = Ok pa'" by simp
  show ?thesis by (rule onClientDescribe_inv [OF r]) (simp add: inv_emit i)
qed

lemma step_ClientSetupPlay_inv:
  assumes run: "step (ClientSetupPlay c t) pa = Ok pa'" and i: "pathInv pa"
  shows "pathInv pa'"
proof -
  from run obtain err p1 where r: "onClientSetupPlay c t pa = Ok (err, p1)"
    and fin: "pa' = emit (ClientSetupPlayRes c err) p1"
    by (auto simp: andThen_Ok_iff)
  have "pathInv p1"
  proof (cases "p1 = pa")
    case True
    with i show ?thesis by simp
  next
    case False
    with r have a: "addClient c clientStatePrePlay (cancelCloseTimers pa) = Ok p1"
      by (auto simp: onClientSetupPlay_def andThen_Ok_iff split: if_splits)
    let ?p = "cancelCloseTimers pa"
    have "invSource ?p = invSource pa" by (rule invSource_cong) simp_all
    moreover have "invWaiting ?p = invWaiting pa" by (rule invWaiting_cong) simp_all
    moreover have "invSdp ?p = invSdp pa" by (rule invSdp_cong) simp_all
    moreover have "sourceCloseTimer ?p = None"
      using invD(4) [OF i] by (intro cancelCloseTimers_timer) (simp add: invSourceClose_def)
    ultimately show ?thesis
      using addClient_inv [OF a, of] invD [OF i] by (simp add: isPublisher_def)
  qed
  then show ?thesis by (simp add: fin inv_emit)
qed

lemma active_client_stops_timer:
  assumes i: "pathInv p" and c: "map_of (clients p) c = Some s" "s \<noteq> clientStatePreRemove"
  shows "\<not> sourceCloseTimerStarted p" "sourceCloseTimer p = None"
proof -
  from c have "hasClients p" using hasClients_map_of [OF invD(1) [OF i]] by blast
  with invD(4) [OF i] show "\<not> sourceCloseTimerStarted p"
    by (auto simp: invSourceClose_def sourceCloseAllowed_def)
  with invD(4) [OF i] show "sourceCloseTimer p = None"
    by (auto simp: invSourceClose_def)
qed

text \<open>A client moves from one state to another that is as much a publisher state.\<close>

lemma setState_inv:
  assumes i: "pathInv p" and c: "map_of (clients p) c = Some s" "s \<noteq> clientStatePreRemove"
    and pub: "isPublisher st = isPublisher s"
    and st: "st \<noteq> clientStateWaitingDescribe" "st \<noteq> clientStatePreRecord"
  defines "p' \<equiv> p\<lparr>clients := AList.update c st (clients p)\<rparr>"
  shows "pathInv p'"
proof -
  have look: "\<And>k. map_of (clients p') k = (if k = c then Some st else map_of (clients p) k)"
    by (simp add: p'_def update_conv')
  have "distinct (map fst (clients p'))"
    using invD(1) [OF i] by (simp add: p'_def distinct_update)
  moreover have "invSource p'"
    unfolding invSource_def
  proof (intro conjI allI impI)
    fix k v assume a: "map_of (clients p') k = Some v" "isPublisher v"
    show "source p' = ClientSource k"
    proof (cases "k = c")
      case True
      with a look pub have "isPublisher s" by simp
      from invSourceD(1) [OF invD(2) [OF i] c(1) this] True show ?thesis by (simp add: p'_def)
    next
      case False
      with a look have "map_of (clients p) k = Some v" by simp
      from invSourceD(1) [OF invD(2) [OF i] this a(2)] show ?thesis by (simp add: p'_def)
    qed
  next
    fix k assume "source p' = ClientSource k"
    then have src: "source p = ClientSource k" by (simp add: p'_def)
    from invSourceD(2) [OF invD(2) [OF i] src]
    obtain v where v: "map_of (clients p) k = Some v" "isPublisher v" by auto
    show "\<exists>v. map_of (clients p') k = Some v \<and> isPublisher v"
    proof (cases "k = c")
      case True
      with v c pub look show ?thesis by simp
    next
      case False
      with v look show ?thesis by simp
    qed
  next
    fix k assume h: "hasExternalSource p'"
    have "hasExternalSource p' = hasExternalSource p"
      by (rule hasExternalSource_cong) (simp add: p'_def)
    with h invSourceD(3) [OF invD(2) [OF i]] show "source p' \<noteq> ClientSource k"
      by (simp add: p'_def)
  qed
  moreover have "invWaiting p'"
    unfolding invWaiting_def
  proof (intro allI impI)
    fix k assume a: "map_of (clients p') k = Some clientStateWaitingDescribe"
    with look st(1) have "map_of (clients p) k = Some clientStateWaitingDescribe"
      by (auto split: if_splits)
    from invWaitingD [OF invD(3) [OF i] this] show "sourceState p' = sourceStateWaitingDescribe"
      by (simp add: p'_def)
  qed
  moreover have "invSourceClose p'"
    by (rule invSourceClose_off) (simp_all add: p'_def active_client_stops_timer [OF i c])
  moreover have "invSdp p'"
  proof -
    have "\<And>k. map_of (clients p) k \<noteq> Some clientStatePreRecord
              \<Longrightarrow> map_of (clients p') k \<noteq> Some clientStatePreRecord"
      using st(2) by (simp add: look)
    with invD(5) [OF i] show ?thesis unfolding invSdp_def by (simp add: p'_def)
  qed
  ultimately show ?thesis by (simp add: pathInv_def)
qed

lemma step_ClientPlay_inv:
  assumes run: "step (ClientPlay c) pa = Ok pa'" and i: "pathInv pa"
  shows "pathInv pa'"
proof -
  from run have fin: "pa' = emit (ClientPlayRes c) (onClientPlay c pa)" by simp
  have "pathInv (onClientPlay c pa)"
  proof (cases "map_of (clients pa) c = Some clientStatePrePlay")
    case True
    let ?p = "pa\<lparr>clients := AList.update c clientStatePlay (clients pa)\<rparr>"
    have "pathInv ?p" by (rule setState_inv [OF i True]) (simp_all add: isPublisher_def)
    moreover have "pathInv (onClientPlay c pa) = pathInv ?p"
      by (rule inv_cong) (simp_all add: onClientPlay_def True)
    ultimately show ?thesis by simp
  next
    case False
    then have "onClientPlay c pa = pa" by (auto simp: onClientPlay_def split: option.splits)
    with i show ?thesis by simp
  qed
  then show ?thesis by (simp add: fin inv_emit)
qed

lemma step_ClientRecord_inv:
  assumes run: "step (ClientRecord c) pa = Ok pa'" and i: "pathInv pa"
  shows "pathInv pa'"
proof -
  from run obtain p1 where r: "onClientRecord c pa = Ok p1"
    and fin: "pa' = emit (ClientRecordRes c) p1" by (auto simp: andThen_Ok_iff)
  have "pathInv p1"
  proof (cases "map_of (clients pa) c = Some clientStatePreRecord")
    case True
    let ?q = "pa\<lparr>clients := AList.update c clientStateRecord (clients pa)\<rparr>"
    let ?p = "pa\<lparr>countPublishers := countPublishers pa + 1,
                  clients := AList.update c clientStateRecord (clients pa)\<rparr>"
    from r True have rr: "onSourceSetReady ?p = Ok p1" by (simp add: onClientRecord_def)
    have iq: "pathInv ?q" by (rule setState_inv [OF i True]) (simp_all add: isPublisher_def)
    have "pathInv ?p = pathInv ?q" by (rule inv_cong) simp_all
    with iq have ip: "pathInv ?p" by simp
    from invD(5) [OF i] True
    have "\<exists>ts. sourceSdp pa = Some (TracksWrite ts) \<and> sourceTrackCount pa = int (length ts)"
      unfolding invSdp_def by auto
    then have sd: "\<exists>ts. sourceSdp ?p = Some (TracksWrite ts)
                       \<and> sourceTrackCount ?p = int (length ts)" by simp
    show ?thesis by (rule onSourceSetReady_inv [OF rr invD(1,2,4) [OF ip] sd])
  next
    case False
    with r have "p1 = pa" by (auto simp: onClientRecord_def split: option.splits if_splits)
    with i show ?thesis by simp
  qed
  then show ?thesis by (simp add: fin inv_emit)
qed

lemma step_ClientAnnounce_inv:
  assumes run: "step (ClientAnnounce c ts) pa = Ok pa'" and i: "pathInv pa"
  shows "pathInv pa'"
proof -
  from run obtain err p1 where r: "onClientAnnounce c ts pa = Ok (err, p1)"
    and fin: "pa' = emit (ClientAnnounceRes c err) p1"
    by (auto simp: andThen_Ok_iff)
  have "pathInv p1"
  proof (cases "p1 = pa")
    case True
    with i show ?thesis by simp
  next
    case False
    with r have none: "map_of (clients pa) c = None" and ns: "source pa = NoSource"
      and ne: "\<not> hasExternalSource pa"
      and p1: "p1 = pa\<lparr>clients := clients pa @ [(c, clientStatePreRecord)],
                       source := ClientSource c, sourceTrackCount := int (length ts),
                       sourceSdp := Some (TracksWrite ts)\<rparr>"
      by (auto simp: onClientAnnounce_def addClient_def split: if_splits)
    have look: "\<And>k. map_of (clients p1) k
       = (case map_of (clients pa) k of Some v \<Rightarrow> Some v
          | None \<Rightarrow> if k = c then Some clientStatePreRecord else None)"
      by (simp add: p1 map_add_def split: option.splits)
    have nopub: "\<And>k v. map_of (clients pa) k = Some v \<Longrightarrow> \<not> isPublisher v"
      using invSourceD(1) [OF invD(2) [OF i]] ns by fastforce
    have "distinct (map fst (clients p1))"
      using distinct_snoc [OF invD(1) [OF i] none] by (simp add: p1)
    moreover have "invSource p1"
      unfolding invSource_def
    proof (intro conjI allI impI)
      fix k v assume a: "map_of (clients p1) k = Some v" "isPublisher v"
      with nopub [of k v] look [of k] have "k = c"
        by (auto split: option.splits if_splits)
      then show "source p1 = ClientSource k" by (simp add: p1)
    next
      fix k assume "source p1 = ClientSource k"
      then have "k = c" by (simp add: p1)
      with none look [of k]
      show "\<exists>v. map_of (clients p1) k = Some v \<and> isPublisher v"
        by (simp add: isPublisher_def)
    next
      fix k assume h: "hasExternalSource p1"
      have "hasExternalSource p1 = hasExternalSource pa"
        by (rule hasExternalSource_cong) (simp add: p1)
      with h ne show "source p1 \<noteq> ClientSource k" by simp
    qed
    moreover have "invWaiting p1"
      unfolding invWaiting_def
    proof (intro allI impI)
      fix k assume a: "map_of (clients p1) k = Some clientStateWaitingDescribe"
      with look [of k] have "map_of (clients pa) k = Some clientStateWaitingDescribe"
        by (auto split: option.splits if_splits)
      from invWaitingD [OF invD(3) [OF i] this] show "sourceState p1 = sourceStateWaitingDescribe"
        by (simp add: p1)
    qed
    moreover have "invSourceClose p1"
    proof (rule invSourceClose_off)
      from invD(4) [OF i] ne show "\<not> sourceCloseTimerStarted p1"
        by (auto simp: invSourceClose_def sourceCloseAllowed_def p1)
      with invD(4) [OF i] show "sourceCloseTimer p1 = None"
        by (auto simp: invSourceClose_def p1)
    qed
    moreover have "invSdp p1" by (simp add: invSdp_def p1)
    ultimately show ?thesis by (simp add: pathInv_def)
  qed
  then show ?thesis by (simp add: fin inv_emit)
qed

lemma set_delete_subset: "set (AList.delete c al) \<subseteq> set al"
  by (simp add: AList.delete_eq)

lemma delete_inv:
  assumes i: "pathInv p" and c: "map_of (clients p) c = Some clientStatePreRemove"
  defines "p' \<equiv> p\<lparr>clients := AList.delete c (clients p)\<rparr>"
  shows "pathInv p'"
proof -
  have look: "\<And>k. map_of (clients p') k = (if k = c then None else map_of (clients p) k)"
    by (simp add: p'_def delete_conv')
  have sub: "\<And>k v. map_of (clients p') k = Some v \<Longrightarrow> map_of (clients p) k = Some v"
    by (simp add: look split: if_splits)
  have "distinct (map fst (clients p'))"
    using invD(1) [OF i] by (simp add: p'_def distinct_delete)
  moreover have "invSource p'"
    unfolding invSource_def
  proof (intro conjI allI impI)
    fix k v assume a: "map_of (clients p') k = Some v" "isPublisher v"
    from invSourceD(1) [OF invD(2) [OF i] sub [OF a(1)] a(2)]
    show "source p' = ClientSource k" by (simp add: p'_def)
  next
    fix k assume "source p' = ClientSource k"
    then have src: "source p = ClientSource k" by (simp add: p'_def)
    from invSourceD(2) [OF invD(2) [OF i] src]
    obtain v where v: "map_of (clients p) k = Some v" "isPublisher v" by auto
    with c have "k \<noteq> c" by (auto simp: isPublisher_def)
    with v look show "\<exists>v. map_of (clients p') k = Some v \<and> isPublisher v" by simp
  next
    fix k assume h: "hasExternalSource p'"
    have "hasExternalSource p' = hasExternalSource p"
      by (rule hasExternalSource_cong) (simp add: p'_def)
    with h invSourceD(3) [OF invD(2) [OF i]] show "source p' \<noteq> ClientSource k"
      by (simp add: p'_def)
  qed
  moreover have "invWaiting p'"
    unfolding invWaiting_def
  proof (intro allI impI)
    fix k assume a: "map_of (clients p') k = Some clientStateWaitingDescribe"
    from invWaitingD [OF invD(3) [OF i] sub [OF a]]
    show "sourceState p' = sourceStateWaitingDescribe" by (simp add: p'_def)
  qed
  moreover have "invSourceClose p'"
  proof -
    have "hasClients p' \<Longrightarrow> hasClients p"
      using set_delete_subset [of c "clients p"] by (auto simp: hasClients_iff p'_def)
    then show ?thesis
      using invD(4) [OF i]
      by (auto simp: invSourceClose_def sourceCloseAllowed_def hasExternalSource_def p'_def)
  qed
  moreover have "invSdp p'"
  proof -
    have "\<And>k. map_of (clients p) k \<noteq> Some clientStatePreRecord
              \<Longrightarrow> map_of (clients p') k \<noteq> Some clientStatePreRecord"
      by (simp add: look)
    with invD(5) [OF i] show ?thesis unfolding invSdp_def by (simp add: p'_def)
  qed
  ultimately show ?thesis by (simp add: pathInv_def)
qed

lemma step_ClientRemove_inv:
  assumes run: "step (ClientRemove c) pa = Ok pa'" and i: "pathInv pa"
  shows "pathInv pa'"
proof (cases "map_of (clients pa) c")
  case None
  with run have "pa' = emit (ClientRemoveRes c) pa" by (simp add: onClientRemove_def)
  with i show ?thesis by (simp add: inv_emit)
next
  case (Some st)
  with run obtain p1 where
    r: "(if st \<noteq> clientStatePreRemove then removeClient c pa else Ok pa) = Ok p1"
    and fin: "pa' = emit (ClientRemoveRes c) (p1\<lparr>clients := AList.delete c (clients p1)\<rparr>)"
    by (auto simp: onClientRemove_def andThen_Ok_iff)
  have "pathInv p1 \<and> map_of (clients p1) c = Some clientStatePreRemove"
  proof (cases "st = clientStatePreRemove")
    case True
    with r Some i show ?thesis by simp
  next
    case False
    with r have rr: "removeClient c pa = Ok p1" by simp
    from removeClient_inv_full [OF rr i] removeClient_evolves [OF rr] show ?thesis by simp
  qed
  then have "pathInv (p1\<lparr>clients := AList.delete c (clients p1)\<rparr>)" using delete_inv by simp
  then show ?thesis by (simp add: fin inv_emit)
qed

lemma reorder_inv:
  assumes i: "pathInv pa" and s: "set cs = set (clients pa)" and d: "distinct (map fst cs)"
  shows "pathInv (pa\<lparr>clients := cs\<rparr>)"
proof -
  have m: "map_of cs = map_of (clients pa)"
    using map_of_inject_set [OF d invD(1) [OF i]] s by simp
  have h: "hasClients (pa\<lparr>clients := cs\<rparr>) = hasClients pa"
    by (simp add: hasClients_iff s)
  have "invSource (pa\<lparr>clients := cs\<rparr>)"
    using invD(2) [OF i] by (simp add: invSource_def m hasExternalSource_def)
  moreover have "invWaiting (pa\<lparr>clients := cs\<rparr>)"
    using invD(3) [OF i] by (simp add: invWaiting_def m)
  moreover have "invSourceClose (pa\<lparr>clients := cs\<rparr>)"
    using invD(4) [OF i] h
    by (simp add: invSourceClose_def sourceCloseAllowed_def hasExternalSource_def)
  moreover have "invSdp (pa\<lparr>clients := cs\<rparr>)"
    using invD(5) [OF i] by (simp add: invSdp_def m)
  ultimately show ?thesis using d by (simp add: pathInv_def)
qed

lemma init_inv: "pathInv (runInit (New cf nm))"
proof -
  have f: "clients (runInit (New cf nm)) = []"
    "\<not> sourceCloseTimerStarted (runInit (New cf nm))"
    "sourceCloseTimer (runInit (New cf nm)) = None"
    "sourceState (runInit (New cf nm)) = sourceStateNotReady"
    "sourceSdp (runInit (New cf nm)) = None" "sourceTrackCount (runInit (New cf nm)) = 0"
    "conf (runInit (New cf nm)) = cf"
    by (simp_all add: runInit_def New_def Let_def startExternalSource_def)
  have "\<And>c. source (runInit (New cf nm)) \<noteq> ClientSource c"
    by (simp add: runInit_def New_def Let_def startExternalSource_def)
  then have "invSource (runInit (New cf nm))" by (simp add: invSource_def f)
  moreover have "invWaiting (runInit (New cf nm))" by (simp add: invWaiting_def f)
  moreover have "invSourceClose (runInit (New cf nm))" by (simp add: invSourceClose_off f)
  moreover have "invSdp (runInit (New cf nm))" by (simp add: invSdp_def f)
  ultimately show ?thesis by (simp add: pathInv_def f)
qed

lemma step_inv:
  assumes run: "step ev pa = Ok pa'" and i: "pathInv pa"
  shows "pathInv pa'"
proof (cases ev)
  case DescribeTimer
  with run have "onDescribeTimer pa = Ok pa'" by simp
  from onDescribeTimer_inv [OF this i] show ?thesis .
next
  case SourceCloseTimer
  with run have "onSourceCloseTimer pa = Ok pa'" by simp
  from onSourceCloseTimer_inv [OF this i] show ?thesis .
next
  case RunOnDemandCloseTimer
  with run have "onRunOnDemandCloseTimer pa = Ok pa'" by simp
  from onRunOnDemandCloseTimer_inv [OF this i] show ?thesis .
next
  case (SourceSetReady ts)
  let ?p = "pa\<lparr>sourceSdp := Some (TracksWrite ts), sourceTrackCount := int (length ts)\<rparr>"
  from run SourceSetReady have r: "onSourceSetReady ?p = Ok pa'" by simp
  have "invSource ?p = invSource pa" by (rule invSource_cong) simp_all
  moreover have "invSourceClose ?p = invSourceClose pa" by (rule invSourceClose_cong) simp_all
  ultimately show ?thesis
    using onSourceSetReady_inv [OF r] invD [OF i] by simp
next
  case SourceSetNotReady
  with run have "onSourceSetNotReady pa = Ok pa'" by simp
  from onSourceSetNotReady_inv [OF this i] show ?thesis .
next
  case (ClientDescribe c)
  from step_ClientDescribe_inv [OF run [unfolded ClientDescribe] i] show ?thesis .
next
  case (ClientSetupPlay c t)
  from step_ClientSetupPlay_inv [OF run [unfolded ClientSetupPlay] i] show ?thesis .
next
  case (ClientPlay c)
  from step_ClientPlay_inv [OF run [unfolded ClientPlay] i] show ?thesis .
next
  case (ClientAnnounce c ts)
  from step_ClientAnnounce_inv [OF run [unfolded ClientAnnounce] i] show ?thesis .
next
  case (ClientRecord c)
  from step_ClientRecord_inv [OF run [unfolded ClientRecord] i] show ?thesis .
next
  case (ClientRemove c)
  from step_ClientRemove_inv [OF run [unfolded ClientRemove] i] show ?thesis .
qed

lemma reachable_inv: "reachable cf nm pa \<Longrightarrow> pathInv pa"
proof (induction rule: reachable.induct)
  case reach_init
  show ?case by (rule init_inv)
next
  case (reach_step pa ev pa')
  from step_inv [OF reach_step(3) reach_step.IH] show ?case .
next
  case (reach_order pa cs)
  from reorder_inv [OF reach_order.IH reach_order(2,3)] show ?case .
qed

subsection \<open>Reachable states\<close>

lemma reachable_runs:
  "reachable cf nm pa \<Longrightarrow> runs evs pa = Some pa' \<Longrightarrow> reachable cf nm pa'"
proof (induction evs arbitrary: pa)
  case Nil
  then show ?case by simp
next
  case (Cons ev evs)
  from Cons.prems(2) obtain p where e: "enabled ev pa" and s: "step ev pa = Ok p"
    and r: "runs evs p = Some pa'"
    by (auto split: if_splits result.splits)
  from reach_step [OF Cons.prems(1) e s] have "reachable cf nm p" .
  from Cons.IH [OF this r] show ?case .
qed

lemma reachable_after:
  "reachable cf nm pa \<Longrightarrow> runs evs pa \<noteq> None \<Longrightarrow> reachable cf nm (after evs pa)"
  using reachable_runs by (auto simp: after_def)

lemma reachable_paPublishing: "reachable confRecord ''p'' paPublishing"
  unfolding paPublishing_def by (rule reachable_after [OF reach_init]) code_simp


lemma reachable_paDescribedWhileRecording:
  "reachable confOnDemandCmd ''p'' paDescribedWhileRecording"
  unfolding paDescribedWhileRecording_def by (rule reachable_after [OF reach_init]) code_simp

lemma reachable_paTwoWaiting: "reachable confOnDemandSource ''p'' paTwoWaiting"
  unfolding paTwoWaiting_def by (rule reachable_after [OF reach_init]) code_simp

subsection \<open>SetupPlay\<close>

text \<open>
  C6. \<^verbatim>\<open>onClientSetupPlay\<close> makes its checks in this order: when the source state is not
  ready it returns "no one is publishing to path '...'", and when the state is ready and the
  track index is at least the track count it returns "track N does not exist". In both cases
  the path it returns is the path it was given (the clients map included), and the branch
  of the loop only adds the reply with that error to the trace.
\<close>

theorem onClientSetupPlay_failures:
  "(sourceState pa \<noteq> sourceStateReady \<longrightarrow>
      onClientSetupPlay c trackId pa = Ok (Some (ErrNoOnePublishing (name pa)), pa)
      \<and> step (ClientSetupPlay c trackId) pa
          = Ok (pa\<lparr>trace := trace pa
                   @ [ClientSetupPlayRes c (Some (ErrNoOnePublishing (name pa)))]\<rparr>))
   \<and> (sourceState pa = sourceStateReady \<and> trackId \<ge> sourceTrackCount pa \<longrightarrow>
      onClientSetupPlay c trackId pa = Ok (Some (ErrTrackDoesNotExist trackId), pa)
      \<and> step (ClientSetupPlay c trackId) pa
          = Ok (pa\<lparr>trace := trace pa
                   @ [ClientSetupPlayRes c (Some (ErrTrackDoesNotExist trackId))]\<rparr>))"
  by (simp add: onClientSetupPlay_def emit_def)

theorem onClientSetupPlay_failures_witness:
  "sourceState (New confRecord ''p'') \<noteq> sourceStateReady
   \<and> onClientSetupPlay 4 0 (New confRecord ''p'')
       = Ok (Some (ErrNoOnePublishing ''p''), New confRecord ''p'')
   \<and> sourceState paReadyOneTrack = sourceStateReady
   \<and> (5::int) \<ge> sourceTrackCount paReadyOneTrack
   \<and> onClientSetupPlay 4 5 paReadyOneTrack = Ok (Some (ErrTrackDoesNotExist 5), paReadyOneTrack)
   \<and> map_of (clients paReadyOneTrack) 4 = None
   \<and> Error (ErrTrackDoesNotExist 5) = ''track 5 does not exist''"
  using onClientSetupPlay_failures [of "New confRecord ''p''" 4 0]
    onClientSetupPlay_failures [of paReadyOneTrack 4 5]
  by (simp add: New_def formatInt_def paReadyOneTrack_def)

lemma reachable_paSourceIdle: "reachable confOnDemandSource ''p'' paSourceIdle"
  unfolding paSourceIdle_def by (rule reachable_after [OF reach_init]) code_simp

lemma at_most_one:
  assumes "distinct (map fst cs)"
    and "\<And>c st c' st'. (c, st) \<in> set cs \<Longrightarrow> P st \<Longrightarrow> (c', st') \<in> set cs \<Longrightarrow> P st' \<Longrightarrow> c = c'"
  shows "length (filter (\<lambda>(c, st). P st) cs) \<le> 1"
  using assms
proof (induction cs)
  case Nil
  then show ?case by simp
next
  case (Cons a cs)
  obtain k v where a: "a = (k, v)" by (cases a)
  from Cons.prems(1) have d: "distinct (map fst cs)" and nk: "k \<notin> fst ` set cs"
    by (simp_all add: a)
  have uniq: "\<And>c st c' st'. (c, st) \<in> set cs \<Longrightarrow> P st \<Longrightarrow> (c', st') \<in> set cs \<Longrightarrow> P st'
                \<Longrightarrow> c = c'"
    using Cons.prems(2) by (meson list.set_intros(2))
  show ?case
  proof (cases "P v")
    case False
    with Cons.IH [OF d uniq] show ?thesis by (simp add: a)
  next
    case True
    have "filter (\<lambda>(c, st). P st) cs = []"
    proof (rule ccontr)
      assume "filter (\<lambda>(c, st). P st) cs \<noteq> []"
      then obtain c' st' where m: "(c', st') \<in> set cs" "P st'"
        by (auto simp: filter_empty_conv)
      have "(k, v) \<in> set (a # cs)" by (simp add: a)
      moreover from m(1) have "(c', st') \<in> set (a # cs)" by simp
      ultimately have "k = c'" using Cons.prems(2) True m(2) by blast
      with m(1) nk show False by force
    qed
    with True show ?thesis by (simp add: a)
  qed
qed

subsection \<open>The loops over the waiting describers\<close>

lemma waiting_only_while_source_waits:
  "reachable cf nm pa \<Longrightarrow> map_of (clients pa) c = Some clientStateWaitingDescribe
     \<Longrightarrow> sourceState pa = sourceStateWaitingDescribe"
  using invWaitingD [OF invD(3) [OF reachable_inv]] by simp

text \<open>Removing a client that waits and is not the source only marks it and reschedules.\<close>

lemma removeClient_waiting:
  assumes "map_of (clients p) c = Some clientStateWaitingDescribe"
    and "source p \<noteq> ClientSource c"
  shows "removeClient c p
         = Ok (scheduleAll (p\<lparr>clients := AList.update c clientStatePreRemove (clients p)\<rparr>))"
  using assms by (simp add: removeClient_def Let_def)

lemma scheduleAll_more_frame [simp]:
  "onInitCmd (scheduleAll pa) = onInitCmd pa"
  by (simp add: scheduleAll_def scheduleClose_def scheduleRunOnDemandClose_def
      scheduleSourceClose_def)

text \<open>
  The loop over the waiting describers, on a path where no waiting client is the source:
  it returns, every waiting client of the list is marked and called back once, in the order
  of the list, and nothing else of what the claims read is changed.
\<close>

lemma describers_loop_exact:
  assumes fg: "\<And>c q. name q = nm \<Longrightarrow> sourceSdp q = sd \<Longrightarrow> f c q = g c"
    and H: "\<forall>k. map_of (clients p) k = Some clientStateWaitingDescribe
                \<longrightarrow> source p \<noteq> ClientSource k"
    and d: "distinct ks" and n: "name p = nm" "sourceSdp p = sd"
  shows "\<exists>p'. forClients
       (\<lambda>c state pa.
          if state = clientStateWaitingDescribe
            then andThen (removeClient c pa) (\<lambda>pa. Ok (emit (f c pa) pa))
          else Ok pa) ks p = Ok p'
     \<and> (\<forall>k. map_of (clients p') k
             = (if k \<in> set ks \<and> map_of (clients p) k = Some clientStateWaitingDescribe
                then Some clientStatePreRemove else map_of (clients p) k))
     \<and> trace p' = trace p
         @ map g (filter (\<lambda>k. map_of (clients p) k = Some clientStateWaitingDescribe) ks)
     \<and> source p' = source p \<and> sourceState p' = sourceState p \<and> name p' = name p
     \<and> sourceSdp p' = sourceSdp p \<and> sourceTrackCount p' = sourceTrackCount p
     \<and> conf p' = conf p \<and> describeTimer p' = describeTimer p
     \<and> countReaders p' = countReaders p \<and> countPublishers p' = countPublishers p
     \<and> readers p' = readers p"
  using H d n
proof (induction ks arbitrary: p)
  case Nil
  then show ?case by simp
next
  case (Cons k ks)
  let ?body = "\<lambda>c state pa.
          if state = clientStateWaitingDescribe
            then andThen (removeClient c pa) (\<lambda>pa. Ok (emit (f c pa) pa))
          else Ok pa"
  from Cons.prems(2) have dk: "distinct ks" and kn: "k \<notin> set ks" by simp_all
  show ?case
  proof (cases "map_of (clients p) k = Some clientStateWaitingDescribe")
    case False
    have run: "forClients ?body (k # ks) p = forClients ?body ks p"
      using False by (cases "map_of (clients p) k") simp_all
    from Cons.IH [OF Cons.prems(1) dk Cons.prems(3,4)]
    obtain p' where p': "forClients ?body ks p = Ok p'"
      "\<forall>x. map_of (clients p') x
             = (if x \<in> set ks \<and> map_of (clients p) x = Some clientStateWaitingDescribe
                then Some clientStatePreRemove else map_of (clients p) x)"
      "trace p' = trace p
         @ map g (filter (\<lambda>k. map_of (clients p) k = Some clientStateWaitingDescribe) ks)"
      "source p' = source p \<and> sourceState p' = sourceState p \<and> name p' = name p
       \<and> sourceSdp p' = sourceSdp p \<and> sourceTrackCount p' = sourceTrackCount p
       \<and> conf p' = conf p \<and> describeTimer p' = describeTimer p
       \<and> countReaders p' = countReaders p \<and> countPublishers p' = countPublishers p
       \<and> readers p' = readers p"
      by blast
    have "\<forall>x. map_of (clients p') x
             = (if x \<in> set (k # ks) \<and> map_of (clients p) x = Some clientStateWaitingDescribe
                then Some clientStatePreRemove else map_of (clients p) x)"
      using p'(2) False by auto
    moreover have "trace p' = trace p
         @ map g (filter (\<lambda>k. map_of (clients p) k = Some clientStateWaitingDescribe) (k # ks))"
      using p'(3) False by simp
    ultimately show ?thesis using run p'(1,4) by simp
  next
    case True
    from Cons.prems(1) True have ns: "source p \<noteq> ClientSource k" by simp
    define q where "q = scheduleAll (p\<lparr>clients := AList.update k clientStatePreRemove (clients p)\<rparr>)"
    define p1 where "p1 = emit (g k) q"
    have rq: "removeClient k p = Ok q" unfolding q_def by (rule removeClient_waiting [OF True ns])
    have "name q = nm" "sourceSdp q = sd" using Cons.prems(3,4) by (simp_all add: q_def)
    from fg [OF this] have fk: "f k q = g k" .
    have run: "forClients ?body (k # ks) p = forClients ?body ks p1"
      using True rq fk by (simp add: p1_def)
    have look1: "\<And>x. map_of (clients p1) x
                   = (if x = k then Some clientStatePreRemove else map_of (clients p) x)"
      by (simp add: p1_def q_def update_conv')
    have f1: "source p1 = source p" "sourceState p1 = sourceState p" "name p1 = name p"
      "sourceSdp p1 = sourceSdp p" "sourceTrackCount p1 = sourceTrackCount p"
      "conf p1 = conf p" "describeTimer p1 = describeTimer p"
      "countReaders p1 = countReaders p" "countPublishers p1 = countPublishers p"
      "readers p1 = readers p" "trace p1 = trace p @ [g k]"
      by (simp_all add: p1_def q_def)
    have H1: "\<forall>x. map_of (clients p1) x = Some clientStateWaitingDescribe
                \<longrightarrow> source p1 \<noteq> ClientSource x"
      using Cons.prems(1) by (simp add: look1 f1)
    from Cons.IH [OF H1 dk] Cons.prems(3,4) f1(3,4)
    obtain p' where p': "forClients ?body ks p1 = Ok p'"
      "\<forall>x. map_of (clients p') x
             = (if x \<in> set ks \<and> map_of (clients p1) x = Some clientStateWaitingDescribe
                then Some clientStatePreRemove else map_of (clients p1) x)"
      "trace p' = trace p1
         @ map g (filter (\<lambda>k. map_of (clients p1) k = Some clientStateWaitingDescribe) ks)"
      "source p' = source p1 \<and> sourceState p' = sourceState p1 \<and> name p' = name p1
       \<and> sourceSdp p' = sourceSdp p1 \<and> sourceTrackCount p' = sourceTrackCount p1
       \<and> conf p' = conf p1 \<and> describeTimer p' = describeTimer p1
       \<and> countReaders p' = countReaders p1 \<and> countPublishers p' = countPublishers p1
       \<and> readers p' = readers p1"
      by (metis (no_types, lifting))
    have "\<forall>x. map_of (clients p') x
             = (if x \<in> set (k # ks) \<and> map_of (clients p) x = Some clientStateWaitingDescribe
                then Some clientStatePreRemove else map_of (clients p) x)"
      using p'(2) True kn by (auto simp: look1)
    moreover have "filter (\<lambda>x. map_of (clients p1) x = Some clientStateWaitingDescribe) ks
        = filter (\<lambda>x. map_of (clients p) x = Some clientStateWaitingDescribe) ks"
      using kn by (intro filter_cong) (auto simp: look1)
    then have "trace p' = trace p
         @ map g (filter (\<lambda>k. map_of (clients p) k = Some clientStateWaitingDescribe) (k # ks))"
      using p'(3) True by (simp add: f1)
    ultimately show ?thesis using run p'(1,4) f1 by simp
  qed
qed

lemma filter_eq_distinct:
  "distinct xs \<Longrightarrow> filter (\<lambda>k. k = c) xs = (if c \<in> set xs then [c] else [])"
  by (induction xs) auto

lemma describeData_filter:
  assumes "\<And>k. describeDataFor c (g k) = (c = k)" and "distinct ks"
  shows "filter (describeDataFor c) (map g (filter W ks))
         = (if c \<in> set ks \<and> W c then [g c] else [])"
proof -
  have "filter (describeDataFor c) (map g (filter W ks))
        = map g (filter (\<lambda>k. k = c) (filter W ks))"
    using assms(1) by (induction ks) auto
  also have "\<dots> = (if c \<in> set (filter W ks) then [g c] else [])"
    using filter_eq_distinct [of "filter W ks" c] assms(2) by simp
  finally show ?thesis by simp
qed

lemma waiting_not_source:
  assumes "invSource p"
  shows "\<forall>k. map_of (clients p) k = Some clientStateWaitingDescribe
              \<longrightarrow> source p \<noteq> ClientSource k"
proof (intro allI impI notI)
  fix k assume w: "map_of (clients p) k = Some clientStateWaitingDescribe"
    and s: "source p = ClientSource k"
  from invSourceD(2) [OF assms s] w show False by (auto simp: isPublisher_def)
qed

text \<open>What the loop of the describe timer branch does on a path that satisfies the invariant.\<close>

lemma timeOutDescribers_exact:
  assumes d: "distinct (map fst (clients p))" and s: "invSource p"
  shows "\<exists>p'. timeOutDescribers p = Ok p'
     \<and> (\<forall>k. map_of (clients p') k
             = (if map_of (clients p) k = Some clientStateWaitingDescribe
                then Some clientStatePreRemove else map_of (clients p) k))
     \<and> trace p' = trace p
         @ map (\<lambda>c. OnPathDescribeData c None [] (Some (ErrPublisherTimedOut (name p))))
             (filter (\<lambda>k. map_of (clients p) k = Some clientStateWaitingDescribe)
                (map fst (clients p)))
     \<and> source p' = source p \<and> sourceState p' = sourceState p \<and> name p' = name p
     \<and> sourceSdp p' = sourceSdp p \<and> sourceTrackCount p' = sourceTrackCount p
     \<and> conf p' = conf p \<and> describeTimer p' = describeTimer p
     \<and> countReaders p' = countReaders p \<and> countPublishers p' = countPublishers p
     \<and> readers p' = readers p"
proof -
  have fg: "\<And>c q. name q = name p \<Longrightarrow> sourceSdp q = sourceSdp p \<Longrightarrow>
      OnPathDescribeData c None [] (Some (ErrPublisherTimedOut (name q)))
      = OnPathDescribeData c None [] (Some (ErrPublisherTimedOut (name p)))"
    by simp
  from describers_loop_exact
    [where f = "\<lambda>c q. OnPathDescribeData c None [] (Some (ErrPublisherTimedOut (name q)))"
       and g = "\<lambda>c. OnPathDescribeData c None [] (Some (ErrPublisherTimedOut (name p)))"
       and ks = "map fst (clients p)" and p = p and nm = "name p" and sd = "sourceSdp p",
     OF fg waiting_not_source [OF s] d refl refl]
  obtain p' where p': "timeOutDescribers p = Ok p'"
    "\<forall>k. map_of (clients p') k
             = (if k \<in> set (map fst (clients p))
                   \<and> map_of (clients p) k = Some clientStateWaitingDescribe
                then Some clientStatePreRemove else map_of (clients p) k)"
    "trace p' = trace p
         @ map (\<lambda>c. OnPathDescribeData c None [] (Some (ErrPublisherTimedOut (name p))))
             (filter (\<lambda>k. map_of (clients p) k = Some clientStateWaitingDescribe)
                (map fst (clients p)))"
    "source p' = source p \<and> sourceState p' = sourceState p \<and> name p' = name p
     \<and> sourceSdp p' = sourceSdp p \<and> sourceTrackCount p' = sourceTrackCount p
     \<and> conf p' = conf p \<and> describeTimer p' = describeTimer p
     \<and> countReaders p' = countReaders p \<and> countPublishers p' = countPublishers p
     \<and> readers p' = readers p"
    unfolding timeOutDescribers_def rangeClients_def by blast
  have "\<forall>k. map_of (clients p') k
             = (if map_of (clients p) k = Some clientStateWaitingDescribe
                then Some clientStatePreRemove else map_of (clients p) k)"
    using p'(2) map_of_keys [of "clients p"] by auto
  with p'(1,3,4) show ?thesis by blast
qed

lemma replyToDescribers_exact:
  assumes d: "distinct (map fst (clients p))" and s: "invSource p"
  shows "\<exists>p'. replyToDescribers p = Ok p'
     \<and> (\<forall>k. map_of (clients p') k
             = (if map_of (clients p) k = Some clientStateWaitingDescribe
                then Some clientStatePreRemove else map_of (clients p) k))
     \<and> trace p' = trace p
         @ map (\<lambda>c. OnPathDescribeData c (sourceSdp p) [] None)
             (filter (\<lambda>k. map_of (clients p) k = Some clientStateWaitingDescribe)
                (map fst (clients p)))
     \<and> source p' = source p \<and> sourceState p' = sourceState p \<and> name p' = name p
     \<and> sourceSdp p' = sourceSdp p \<and> sourceTrackCount p' = sourceTrackCount p
     \<and> conf p' = conf p \<and> describeTimer p' = describeTimer p
     \<and> countReaders p' = countReaders p \<and> countPublishers p' = countPublishers p
     \<and> readers p' = readers p"
proof -
  have fg: "\<And>c q. name q = name p \<Longrightarrow> sourceSdp q = sourceSdp p \<Longrightarrow>
      OnPathDescribeData c (sourceSdp q) [] None = OnPathDescribeData c (sourceSdp p) [] None"
    by simp
  from describers_loop_exact
    [where f = "\<lambda>c q. OnPathDescribeData c (sourceSdp q) [] None"
       and g = "\<lambda>c. OnPathDescribeData c (sourceSdp p) [] None"
       and ks = "map fst (clients p)" and p = p and nm = "name p" and sd = "sourceSdp p",
     OF fg waiting_not_source [OF s] d refl refl]
  obtain p' where p': "replyToDescribers p = Ok p'"
    "\<forall>k. map_of (clients p') k
             = (if k \<in> set (map fst (clients p))
                   \<and> map_of (clients p) k = Some clientStateWaitingDescribe
                then Some clientStatePreRemove else map_of (clients p) k)"
    "trace p' = trace p
         @ map (\<lambda>c. OnPathDescribeData c (sourceSdp p) [] None)
             (filter (\<lambda>k. map_of (clients p) k = Some clientStateWaitingDescribe)
                (map fst (clients p)))"
    "source p' = source p \<and> sourceState p' = sourceState p \<and> name p' = name p
     \<and> sourceSdp p' = sourceSdp p \<and> sourceTrackCount p' = sourceTrackCount p
     \<and> conf p' = conf p \<and> describeTimer p' = describeTimer p
     \<and> countReaders p' = countReaders p \<and> countPublishers p' = countPublishers p
     \<and> readers p' = readers p"
    unfolding replyToDescribers_def rangeClients_def by blast
  have "\<forall>k. map_of (clients p') k
             = (if map_of (clients p) k = Some clientStateWaitingDescribe
                then Some clientStatePreRemove else map_of (clients p) k)"
    using p'(2) map_of_keys [of "clients p"] by auto
  with p'(1,3,4) show ?thesis by blast
qed

lemma removeClient_flat:
  assumes "map_of (clients p) c = Some st" "st \<noteq> clientStatePlay" "st \<noteq> clientStateRecord"
    and "source p \<noteq> ClientSource c"
  shows "removeClient c p
         = Ok (scheduleAll (p\<lparr>clients := AList.update c clientStatePreRemove (clients p)\<rparr>))"
  using assms by (cases st) (simp_all add: removeClient_def Let_def)

lemma scheduleClose_clients [simp]: "clients (scheduleClose p) = clients p"
  by (simp add: scheduleClose_def)

subsection \<open>Announce and the source state\<close>

lemma reachable_paWaitingForCmd: "reachable confOnDemandCmd ''p'' paWaitingForCmd"
  unfolding paWaitingForCmd_def by (rule reachable_after [OF reach_init]) code_simp

lemma record_sets_ready:
  assumes i: "pathInv pa" and c: "map_of (clients pa) c = Some clientStatePreRecord"
  shows "\<exists>pa'. onClientRecord c pa = Ok pa' \<and> sourceState pa' = sourceStateReady
     \<and> source pa' = source pa \<and> map_of (clients pa') c = Some clientStateRecord"
proof -
  let ?q = "pa\<lparr>clients := AList.update c clientStateRecord (clients pa)\<rparr>"
  let ?p = "pa\<lparr>countPublishers := countPublishers pa + 1,
                clients := AList.update c clientStateRecord (clients pa)\<rparr>"
  let ?p2 = "(if sourceState ?p = sourceStateWaitingDescribe
               then ?p\<lparr>describeTimer := None\<rparr> else ?p)\<lparr>sourceState := sourceStateReady\<rparr>"
  have iq: "pathInv ?q" by (rule setState_inv [OF i c]) (simp_all add: isPublisher_def)
  have "invSource ?p2 = invSource ?q" by (rule invSource_cong) simp_all
  with invD(2) [OF iq] have s: "invSource ?p2" by simp
  have d: "distinct (map fst (clients ?p2))"
    using invD(1) [OF i] by (simp add: distinct_update)
  from replyToDescribers_exact [OF d s]
  obtain p' where p': "replyToDescribers ?p2 = Ok p'"
    "\<forall>k. map_of (clients p') k
             = (if map_of (clients ?p2) k = Some clientStateWaitingDescribe
                then Some clientStatePreRemove else map_of (clients ?p2) k)"
    "source p' = source ?p2" "sourceState p' = sourceState ?p2"
    by blast
  have cl: "map_of (clients ?p2) c = Some clientStateRecord" by (simp add: update_conv')
  from p'(2) cl have c': "map_of (clients p') c = Some clientStateRecord" by simp
  have run: "onClientRecord c pa = Ok (scheduleAll p')"
    using c p'(1) by (simp add: onClientRecord_def onSourceSetReady_def Let_def)
  from p'(3,4) c' show ?thesis unfolding run by simp
qed

lemma reachable_paAnnouncedWhileWaiting:
  "reachable confOnDemandCmd ''p'' paAnnouncedWhileWaiting"
  unfolding paAnnouncedWhileWaiting_def
  by (rule reachable_after [OF reachable_paWaitingForCmd]) code_simp

text \<open>
  C5. On a path with an on-demand command, client 2 describes: the command is started, the
  source state is set to waiting and the source is still nil. The Announce of client 1 then
  succeeds, client 1 is added in \<^verbatim>\<open>clientStatePreRecord\<close> and becomes the source, and the
  source state is still waiting: it is not \<^verbatim>\<open>sourceStateNotReady\<close>.
\<close>

theorem announce_while_waiting:
  "reachable confOnDemandCmd ''p'' paWaitingForCmd
   \<and> map_of (clients paWaitingForCmd) 1 = None
   \<and> source paWaitingForCmd = NoSource
   \<and> \<not> hasExternalSource paWaitingForCmd
   \<and> sourceState paWaitingForCmd = sourceStateWaitingDescribe
   \<and> onClientAnnounce 1 [7] paWaitingForCmd
       = Ok (None, paAnnouncedWhileWaiting\<lparr>trace := trace paWaitingForCmd\<rparr>)
   \<and> runs [ClientAnnounce 1 [7]] paWaitingForCmd = Some paAnnouncedWhileWaiting
   \<and> map_of (clients paAnnouncedWhileWaiting) 1 = Some clientStatePreRecord
   \<and> source paAnnouncedWhileWaiting = ClientSource 1
   \<and> sourceTrackCount paAnnouncedWhileWaiting = 1
   \<and> sourceSdp paAnnouncedWhileWaiting = Some (TracksWrite [7])
   \<and> sourceState paAnnouncedWhileWaiting = sourceStateWaitingDescribe
   \<and> sourceState paAnnouncedWhileWaiting \<noteq> sourceStateNotReady"
proof -
  have "map_of (clients paWaitingForCmd) 1 = None" by code_simp
  moreover have "source paWaitingForCmd = NoSource" by code_simp
  moreover have "\<not> hasExternalSource paWaitingForCmd" by code_simp
  moreover have "sourceState paWaitingForCmd = sourceStateWaitingDescribe" by code_simp
  moreover have "onClientAnnounce 1 [7] paWaitingForCmd
       = Ok (None, paAnnouncedWhileWaiting\<lparr>trace := trace paWaitingForCmd\<rparr>)" by code_simp
  moreover have "runs [ClientAnnounce 1 [7]] paWaitingForCmd = Some paAnnouncedWhileWaiting"
    by code_simp
  moreover have "map_of (clients paAnnouncedWhileWaiting) 1 = Some clientStatePreRecord"
    by code_simp
  moreover have "source paAnnouncedWhileWaiting = ClientSource 1" by code_simp
  moreover have "sourceTrackCount paAnnouncedWhileWaiting = 1" by code_simp
  moreover have "sourceSdp paAnnouncedWhileWaiting = Some (TracksWrite [7])" by code_simp
  moreover have "sourceState paAnnouncedWhileWaiting = sourceStateWaitingDescribe"
    by code_simp
  ultimately show ?thesis using reachable_paWaitingForCmd by simp
qed

text \<open>
  C5, as amended. \<^verbatim>\<open>onClientAnnounce\<close> returns "already subscribed" when the client is in
  the clients map. For a client that is not, it returns "someone is already publishing to
  path '...'" exactly when the source is not nil or the configured source is an rtsp or
  rtmp url. Otherwise it succeeds: the client is added in \<^verbatim>\<open>clientStatePreRecord\<close>, it
  becomes the source, the track count and the description are stored, and the source state
  is left as it was, so it is ready after the Announce only if it was ready before. In a
  reachable state the Record of the client that follows returns and sets the source state
  to ready, and so does, in any reachable state, the Record of a client that is in
  \<^verbatim>\<open>clientStatePreRecord\<close>.
\<close>

theorem onClientAnnounce_cases:
  "(map_of (clients pa) c \<noteq> None \<longrightarrow>
      onClientAnnounce c ts pa = Ok (Some ErrAlreadySubscribed, pa))
   \<and> (map_of (clients pa) c = None \<longrightarrow>
        ((\<exists>pa'. onClientAnnounce c ts pa = Ok (Some (ErrAlreadyPublishing (name pa)), pa'))
         \<longleftrightarrow> (source pa \<noteq> NoSource \<or> hasExternalSource pa))
        \<and> (source pa \<noteq> NoSource \<or> hasExternalSource pa \<longrightarrow>
             onClientAnnounce c ts pa = Ok (Some (ErrAlreadyPublishing (name pa)), pa)))
   \<and> (map_of (clients pa) c = None \<and> source pa = NoSource \<and> \<not> hasExternalSource pa \<longrightarrow>
        (\<exists>pa'. onClientAnnounce c ts pa = Ok (None, pa')
           \<and> clients pa' = clients pa @ [(c, clientStatePreRecord)]
           \<and> source pa' = ClientSource c
           \<and> sourceTrackCount pa' = int (length ts)
           \<and> sourceSdp pa' = Some (TracksWrite ts)
           \<and> sourceState pa' = sourceState pa
           \<and> (sourceState pa' = sourceStateReady \<longleftrightarrow> sourceState pa = sourceStateReady)
           \<and> (reachable cf nm pa \<longrightarrow>
                (\<exists>pa''. onClientRecord c pa' = Ok pa''
                    \<and> sourceState pa'' = sourceStateReady
                    \<and> source pa'' = ClientSource c
                    \<and> map_of (clients pa'') c = Some clientStateRecord))))
   \<and> (reachable cf nm pa \<and> map_of (clients pa) c = Some clientStatePreRecord \<longrightarrow>
        (\<exists>pa'. onClientRecord c pa = Ok pa' \<and> sourceState pa' = sourceStateReady
            \<and> source pa' = ClientSource c
            \<and> map_of (clients pa') c = Some clientStateRecord))"
proof (intro conjI impI)
  show "onClientAnnounce c ts pa = Ok (Some ErrAlreadySubscribed, pa)"
    if "map_of (clients pa) c \<noteq> None"
    using that by (simp add: onClientAnnounce_def)
next
  assume "map_of (clients pa) c = None"
  then show "(\<exists>pa'. onClientAnnounce c ts pa = Ok (Some (ErrAlreadyPublishing (name pa)), pa'))
         \<longleftrightarrow> (source pa \<noteq> NoSource \<or> hasExternalSource pa)"
    by (simp add: onClientAnnounce_def addClient_def)
next
  assume "map_of (clients pa) c = None" "source pa \<noteq> NoSource \<or> hasExternalSource pa"
  then show "onClientAnnounce c ts pa = Ok (Some (ErrAlreadyPublishing (name pa)), pa)"
    by (simp add: onClientAnnounce_def)
next
  assume a: "map_of (clients pa) c = None \<and> source pa = NoSource \<and> \<not> hasExternalSource pa"
  let ?p = "pa\<lparr>clients := clients pa @ [(c, clientStatePreRecord)],
                source := ClientSource c, sourceTrackCount := int (length ts),
                sourceSdp := Some (TracksWrite ts)\<rparr>"
  from a have run: "onClientAnnounce c ts pa = Ok (None, ?p)"
    by (simp add: onClientAnnounce_def addClient_def)
  have rec: "\<exists>pa''. onClientRecord c ?p = Ok pa''
                    \<and> sourceState pa'' = sourceStateReady
                    \<and> source pa'' = ClientSource c
                    \<and> map_of (clients pa'') c = Some clientStateRecord"
    if r: "reachable cf nm pa"
  proof -
    have e: "enabled (ClientAnnounce c ts) pa" by simp
    have s: "step (ClientAnnounce c ts) pa = Ok (emit (ClientAnnounceRes c None) ?p)"
      by (simp add: run)
    have "pathInv (emit (ClientAnnounceRes c None) ?p)"
      by (rule step_ClientAnnounce_inv [OF s reachable_inv [OF r]])
    then have i: "pathInv ?p" by (simp add: inv_emit)
    have m: "map_of (clients ?p) c = Some clientStatePreRecord"
      using a by (simp add: map_add_def)
    from record_sets_ready [OF i m] show ?thesis by simp
  qed
  show "\<exists>pa'. onClientAnnounce c ts pa = Ok (None, pa')
           \<and> clients pa' = clients pa @ [(c, clientStatePreRecord)]
           \<and> source pa' = ClientSource c
           \<and> sourceTrackCount pa' = int (length ts)
           \<and> sourceSdp pa' = Some (TracksWrite ts)
           \<and> sourceState pa' = sourceState pa
           \<and> (sourceState pa' = sourceStateReady \<longleftrightarrow> sourceState pa = sourceStateReady)
           \<and> (reachable cf nm pa \<longrightarrow>
                (\<exists>pa''. onClientRecord c pa' = Ok pa''
                    \<and> sourceState pa'' = sourceStateReady
                    \<and> source pa'' = ClientSource c
                    \<and> map_of (clients pa'') c = Some clientStateRecord))"
    using rec by (intro exI [of _ ?p]) (simp add: run)
next
  assume a: "reachable cf nm pa \<and> map_of (clients pa) c = Some clientStatePreRecord"
  then have "reachable cf nm pa" by simp
  then have i: "pathInv pa" by (rule reachable_inv)
  have "source pa = ClientSource c"
    using invSourceD(1) [OF invD(2) [OF i]] a by (simp add: isPublisher_def)
  with record_sets_ready [OF i] a
  show "\<exists>pa'. onClientRecord c pa = Ok pa' \<and> sourceState pa' = sourceStateReady
            \<and> source pa' = ClientSource c
            \<and> map_of (clients pa') c = Some clientStateRecord"
    by auto
qed

theorem onClientAnnounce_cases_witness:
  "reachable confOnDemandCmd ''p'' paAnnouncedWhileWaiting
   \<and> map_of (clients paAnnouncedWhileWaiting) 1 \<noteq> None
   \<and> onClientAnnounce 1 [7] paAnnouncedWhileWaiting
       = Ok (Some ErrAlreadySubscribed, paAnnouncedWhileWaiting)
   \<and> map_of (clients paAnnouncedWhileWaiting) 3 = None
   \<and> source paAnnouncedWhileWaiting \<noteq> NoSource
   \<and> onClientAnnounce 3 [7] paAnnouncedWhileWaiting
       = Ok (Some (ErrAlreadyPublishing ''p''), paAnnouncedWhileWaiting)
   \<and> reachable confRecord ''p'' (runInit (New confRecord ''p''))
   \<and> map_of (clients (runInit (New confRecord ''p''))) 1 = None
   \<and> source (runInit (New confRecord ''p'')) = NoSource
   \<and> \<not> hasExternalSource (runInit (New confRecord ''p''))
   \<and> (\<exists>pa'. onClientAnnounce 1 [7] (runInit (New confRecord ''p'')) = Ok (None, pa')
         \<and> clients pa' = [(1, clientStatePreRecord)] \<and> source pa' = ClientSource 1
         \<and> sourceTrackCount pa' = 1 \<and> sourceSdp pa' = Some (TracksWrite [7])
         \<and> sourceState pa' = sourceStateNotReady
         \<and> (\<exists>pa''. onClientRecord 1 pa' = Ok pa'' \<and> sourceState pa'' = sourceStateReady
                \<and> source pa'' = ClientSource 1
                \<and> map_of (clients pa'') 1 = Some clientStateRecord))
   \<and> map_of (clients paAnnouncedWhileWaiting) 1 = Some clientStatePreRecord
   \<and> (\<exists>pa'. onClientRecord 1 paAnnouncedWhileWaiting = Ok pa'
         \<and> sourceState pa' = sourceStateReady \<and> source pa' = ClientSource 1
         \<and> map_of (clients pa') 1 = Some clientStateRecord)"
proof -
  let ?p0 = "runInit (New confRecord ''p'')"
  have a: "map_of (clients paAnnouncedWhileWaiting) 1 = Some clientStatePreRecord"
    by code_simp
  have b: "map_of (clients paAnnouncedWhileWaiting) 3 = None" by code_simp
  have c: "source paAnnouncedWhileWaiting \<noteq> NoSource" by code_simp
  have n: "name paAnnouncedWhileWaiting = ''p''" by code_simp
  have d: "map_of (clients ?p0) 1 = None" by code_simp
  have e: "source ?p0 = NoSource" by code_simp
  have f: "\<not> hasExternalSource ?p0" by code_simp
  have g: "clients ?p0 = []" by code_simp
  have h: "sourceState ?p0 = sourceStateNotReady" by code_simp
  have r0: "reachable confRecord ''p'' ?p0" by (rule reach_init)
  note r1 = reachable_paAnnouncedWhileWaiting
  from onClientAnnounce_cases
         [where pa = paAnnouncedWhileWaiting and c = 1 and ts = "[7]"
            and cf = confOnDemandCmd and nm = "''p''"]
       a r1
  have 1: "onClientAnnounce 1 [7] paAnnouncedWhileWaiting
             = Ok (Some ErrAlreadySubscribed, paAnnouncedWhileWaiting)"
    "\<exists>pa'. onClientRecord 1 paAnnouncedWhileWaiting = Ok pa'
         \<and> sourceState pa' = sourceStateReady \<and> source pa' = ClientSource 1
         \<and> map_of (clients pa') 1 = Some clientStateRecord"
    by simp_all
  from onClientAnnounce_cases
         [where pa = paAnnouncedWhileWaiting and c = 3 and ts = "[7]"
            and cf = confOnDemandCmd and nm = "''p''"]
       b c n
  have 2: "onClientAnnounce 3 [7] paAnnouncedWhileWaiting
             = Ok (Some (ErrAlreadyPublishing ''p''), paAnnouncedWhileWaiting)"
    by simp
  from onClientAnnounce_cases
         [where pa = ?p0 and c = 1 and ts = "[7]" and cf = confRecord and nm = "''p''"]
       d e f g h r0
  have 3: "\<exists>pa'. onClientAnnounce 1 [7] ?p0 = Ok (None, pa')
         \<and> clients pa' = [(1, clientStatePreRecord)] \<and> source pa' = ClientSource 1
         \<and> sourceTrackCount pa' = 1 \<and> sourceSdp pa' = Some (TracksWrite [7])
         \<and> sourceState pa' = sourceStateNotReady
         \<and> (\<exists>pa''. onClientRecord 1 pa' = Ok pa'' \<and> sourceState pa'' = sourceStateReady
                \<and> source pa'' = ClientSource 1
                \<and> map_of (clients pa'') 1 = Some clientStateRecord)"
    by auto
  from 1 2 3 a b c d e f r0 r1 show ?thesis by simp
qed

subsection \<open>Entries in clientStatePreRemove\<close>






text \<open>Describe by a new client in a reachable state, when the answer is immediate.\<close>

lemma describe_immediate:
  assumes r: "reachable cf nm pa" and none: "map_of (clients pa) c = None"
    and p: "p = startOnDemandCmd (startOnDemandSource (cancelCloseTimers
                  (emit (ClientDescribeRes c None) pa)))"
    and now: "source p = RedirectSource \<or> sourceState p = sourceStateReady
              \<or> sourceState p = sourceStateNotReady"
  shows "\<exists>pa' x. step (ClientDescribe c) pa = Ok pa'
           \<and> pa' = emit x (scheduleAll (p\<lparr>clients := clients p @ [(c, clientStatePreRemove)]\<rparr>))
           \<and> (\<exists>s u e. x = OnPathDescribeData c s u e)"
proof -
  define p0 where "p0 = emit (ClientDescribeRes c None) pa"
  have i0: "pathInv p0" using reachable_inv [OF r] by (simp add: p0_def inv_emit)
  note pr = describe_prepare [OF i0, folded p0_def, folded p [unfolded p0_def [symmetric]]]
  have cl: "clients p = clients pa" using pr(1) by (simp add: p0_def)
  define p1 where "p1 = p\<lparr>clients := clients p @ [(c, clientStatePreRemove)]\<rparr>"
  have a: "\<And>st. addClient c clientStatePreRemove p = Ok p1"
    using none by (simp add: addClient_def cl p1_def)
  have c1: "map_of (clients p1) c = Some clientStatePreRemove"
    using none by (simp add: p1_def cl map_add_def)
  have ns: "source p1 \<noteq> ClientSource c"
  proof
    assume "source p1 = ClientSource c"
    then have "source p = ClientSource c" by (simp add: p1_def)
    from invSourceD(2) [OF pr(2) this] none show False by (simp add: cl)
  qed
  have u: "AList.update c clientStatePreRemove (clients p1) = clients p1"
    by (rule update_triv [OF c1])
  have rm: "removeClient c p1 = Ok (scheduleAll p1)"
    using removeClient_flat [OF c1 _ _ ns] by (simp add: u)
  have dn: "\<And>f. describeNow c f p = Ok (emit (f (scheduleAll p1)) (scheduleAll p1))"
    using a rm by (simp add: describeNow_def)
  have st: "step (ClientDescribe c) pa = onClientDescribe c p0"
    using none by (simp add: p0_def)
  have oc: "\<exists>x. onClientDescribe c p0 = Ok (emit x (scheduleAll p1))
               \<and> (\<exists>s u e. x = OnPathDescribeData c s u e)"
  proof (cases "source p = RedirectSource")
    case True
    then have "onClientDescribe c p0
        = Ok (emit ((\<lambda>pa. OnPathDescribeData c None (SourceRedirect (conf pa)) None)
                (scheduleAll p1)) (scheduleAll p1))"
      unfolding onClientDescribe_def Let_def p [unfolded p0_def [symmetric], symmetric]
      by (simp add: dn)
    then show ?thesis by blast
  next
    case False
    with now have "sourceState p = sourceStateReady \<or> sourceState p = sourceStateNotReady"
      by simp
    then show ?thesis
    proof
      assume rd: "sourceState p = sourceStateReady"
      with False have "onClientDescribe c p0
        = Ok (emit ((\<lambda>pa. OnPathDescribeData c (sourceSdp pa) [] None)
                (scheduleAll p1)) (scheduleAll p1))"
        unfolding onClientDescribe_def Let_def p [unfolded p0_def [symmetric], symmetric]
        by (simp add: dn)
      then show ?thesis by blast
    next
      assume rd: "sourceState p = sourceStateNotReady"
      with False have "onClientDescribe c p0
        = Ok (emit ((\<lambda>pa. OnPathDescribeData c None [] (Some (ErrNoOnePublishing (name pa))))
                (scheduleAll p1)) (scheduleAll p1))"
        unfolding onClientDescribe_def Let_def p [unfolded p0_def [symmetric], symmetric]
        by (simp add: dn)
      then show ?thesis by blast
    qed
  qed
  then obtain x where x: "onClientDescribe c p0 = Ok (emit x (scheduleAll p1))"
    "\<exists>s u e. x = OnPathDescribeData c s u e" by blast
  have "step (ClientDescribe c) pa = Ok (emit x (scheduleAll p1))" using st x(1) by simp
  then show ?thesis using x(2) unfolding p1_def by blast
qed

subsection \<open>The publisher, the source close timer and readiness\<close>

text \<open>
  C4. In every reachable state the clients map has one entry per client, at most one entry is
  in \<^verbatim>\<open>clientStatePreRecord\<close> or \<^verbatim>\<open>clientStateRecord\<close>, and a client in one of these states
  is the source of the path.
\<close>

theorem one_publisher:
  "reachable cf nm pa \<Longrightarrow>
     distinct (map fst (clients pa))
     \<and> length (filter (\<lambda>(c, st). st = clientStatePreRecord \<or> st = clientStateRecord)
                 (clients pa)) \<le> 1
     \<and> (\<forall>c st. map_of (clients pa) c = Some st
           \<and> (st = clientStatePreRecord \<or> st = clientStateRecord)
           \<longrightarrow> source pa = ClientSource c)"
proof -
  assume r: "reachable cf nm pa"
  note i = reachable_inv [OF r]
  note d = invD(1) [OF i]
  have src: "\<And>c st. map_of (clients pa) c = Some st
      \<Longrightarrow> st = clientStatePreRecord \<or> st = clientStateRecord \<Longrightarrow> source pa = ClientSource c"
    using invSourceD(1) [OF invD(2) [OF i]] by (simp add: isPublisher_def)
  have "length (filter (\<lambda>(c, st). st = clientStatePreRecord \<or> st = clientStateRecord)
                 (clients pa)) \<le> 1"
  proof (rule at_most_one [OF d])
    fix c st c' st'
    assume a: "(c, st) \<in> set (clients pa)" "st = clientStatePreRecord \<or> st = clientStateRecord"
      "(c', st') \<in> set (clients pa)" "st' = clientStatePreRecord \<or> st' = clientStateRecord"
    from a(1,3) d have "map_of (clients pa) c = Some st" "map_of (clients pa) c' = Some st'"
      by simp_all
    from src [OF this(1) a(2)] src [OF this(2) a(4)] show "c = c'" by simp
  qed
  with d src show ?thesis by blast
qed

theorem one_publisher_witness:
  "reachable confRecord ''p'' paPublishing
   \<and> map_of (clients paPublishing) 1 = Some clientStateRecord
   \<and> source paPublishing = ClientSource 1
   \<and> length (filter (\<lambda>(c, st). st = clientStatePreRecord \<or> st = clientStateRecord)
               (clients paPublishing)) \<le> 1"
proof -
  have a: "map_of (clients paPublishing) 1 = Some clientStateRecord" by code_simp
  from one_publisher [OF reachable_paPublishing] a reachable_paPublishing
  show ?thesis by blast
qed

text \<open>
  C9. In every reachable state the source close timer can fire only while
  \<^verbatim>\<open>sourceCloseTimerStarted\<close> is set, and the flag is set only when the configured source is an
  rtsp or rtmp url, \<^verbatim>\<open>SourceOnDemand\<close> is set, the source is not nil, every client in the map
  is in \<^verbatim>\<open>clientStatePreRemove\<close> and the source state is not waiting. \<^verbatim>\<open>onClientDescribe\<close>
  starts by cancelling the timer: it does to the path what it does to the path with the
  timer cancelled, in which the flag is clear and the timer cannot fire. A SetupPlay that
  adds a new client adds it to the path with the timer cancelled.
\<close>

theorem sourceCloseTimer_armed:
  "reachable cf nm pa \<Longrightarrow>
     (sourceCloseTimer pa \<noteq> None \<longrightarrow> sourceCloseTimerStarted pa)
     \<and> (sourceCloseTimerStarted pa \<longrightarrow>
          hasExternalSource pa \<and> SourceOnDemand (conf pa) \<and> source pa \<noteq> NoSource
          \<and> (\<forall>c st. map_of (clients pa) c = Some st \<longrightarrow> st = clientStatePreRemove)
          \<and> sourceState pa \<noteq> sourceStateWaitingDescribe)
     \<and> (\<forall>c. onClientDescribe c pa = onClientDescribe c (cancelCloseTimers pa))
     \<and> \<not> sourceCloseTimerStarted (cancelCloseTimers pa)
     \<and> sourceCloseTimer (cancelCloseTimers pa) = None
     \<and> (\<forall>c t pa'. map_of (clients pa) c = None \<and> onClientSetupPlay c t pa = Ok (None, pa')
           \<longrightarrow> addClient c clientStatePrePlay (cancelCloseTimers pa) = Ok pa'
               \<and> \<not> sourceCloseTimerStarted pa' \<and> sourceCloseTimer pa' = None)"
proof -
  assume r: "reachable cf nm pa"
  note i = reachable_inv [OF r]
  from invD(4) [OF i] have t: "sourceCloseTimer pa \<noteq> None \<longrightarrow> sourceCloseTimerStarted pa"
    and al: "sourceCloseTimerStarted pa \<longrightarrow> sourceCloseAllowed pa"
    by (simp_all add: invSourceClose_def)
  have none: "sourceCloseTimerStarted pa
     \<longrightarrow> (\<forall>c st. map_of (clients pa) c = Some st \<longrightarrow> st = clientStatePreRemove)"
    using al hasClients_map_of [OF invD(1) [OF i]] by (auto simp: sourceCloseAllowed_def)
  have idem: "cancelCloseTimers (cancelCloseTimers pa) = cancelCloseTimers pa"
    by (simp add: cancelCloseTimers_def Let_def)
  have desc: "\<forall>c. onClientDescribe c pa = onClientDescribe c (cancelCloseTimers pa)"
    by (simp add: onClientDescribe_def idem)
  have off: "sourceCloseTimer (cancelCloseTimers pa) = None"
    by (rule cancelCloseTimers_timer [OF t])
  have sp: "\<forall>c t pa'. map_of (clients pa) c = None \<and> onClientSetupPlay c t pa = Ok (None, pa')
           \<longrightarrow> addClient c clientStatePrePlay (cancelCloseTimers pa) = Ok pa'
               \<and> \<not> sourceCloseTimerStarted pa' \<and> sourceCloseTimer pa' = None"
  proof (intro allI impI, elim conjE)
    fix c t pa'
    assume n: "map_of (clients pa) c = None" and s: "onClientSetupPlay c t pa = Ok (None, pa')"
    from s n have a: "addClient c clientStatePrePlay (cancelCloseTimers pa) = Ok pa'"
      by (auto simp: onClientSetupPlay_def andThen_Ok_iff split: if_splits)
    then have "pa' = (cancelCloseTimers pa)\<lparr>clients := clients (cancelCloseTimers pa)
                                                  @ [(c, clientStatePrePlay)]\<rparr>"
      by (simp add: addClient_Ok)
    with a off show "addClient c clientStatePrePlay (cancelCloseTimers pa) = Ok pa'
               \<and> \<not> sourceCloseTimerStarted pa' \<and> sourceCloseTimer pa' = None" by simp
  qed
  have noflag: "\<not> sourceCloseTimerStarted (cancelCloseTimers pa)" by simp
  from al have al': "sourceCloseTimerStarted pa \<longrightarrow>
          hasExternalSource pa \<and> SourceOnDemand (conf pa) \<and> source pa \<noteq> NoSource
          \<and> sourceState pa \<noteq> sourceStateWaitingDescribe"
    by (simp add: sourceCloseAllowed_def)
  from t al' none desc noflag off sp show ?thesis by blast
qed

theorem sourceCloseTimer_armed_witness:
  "reachable confOnDemandSource ''p'' paSourceIdle
   \<and> sourceCloseTimer paSourceIdle \<noteq> None \<and> sourceCloseTimerStarted paSourceIdle
   \<and> hasExternalSource paSourceIdle \<and> SourceOnDemand (conf paSourceIdle)
   \<and> source paSourceIdle \<noteq> NoSource
   \<and> map_of (clients paSourceIdle) 1 = Some clientStatePreRemove
   \<and> sourceState paSourceIdle \<noteq> sourceStateWaitingDescribe
   \<and> map_of (clients paSourceIdle) 3 = None
   \<and> (\<exists>pa'. onClientSetupPlay 3 0 paSourceIdle = Ok (None, pa')
          \<and> \<not> sourceCloseTimerStarted pa' \<and> sourceCloseTimer pa' = None)"
proof -
  have a: "sourceCloseTimer paSourceIdle \<noteq> None" by code_simp
  have b: "map_of (clients paSourceIdle) 1 = Some clientStatePreRemove" by code_simp
  have c: "map_of (clients paSourceIdle) 3 = None" by code_simp
  have d: "\<exists>pa'. onClientSetupPlay 3 0 paSourceIdle = Ok (None, pa')"
  proof -
    have "(case onClientSetupPlay 3 0 paSourceIdle of Ok (None, pa') \<Rightarrow> True | _ \<Rightarrow> False)"
      by code_simp
    then show ?thesis by (auto split: result.splits option.splits prod.splits)
  qed
  from sourceCloseTimer_armed [OF reachable_paSourceIdle] a b c d reachable_paSourceIdle
  show ?thesis by blast
qed




text \<open>
  C2. On a path with an on-demand command, a publisher that records before anyone has
  described leaves the source state ready with no command running; the next Describe starts
  the command, sets the source state to waiting and parks the describer. When the publisher
  is then removed, \<^verbatim>\<open>removeClient\<close> runs \<^verbatim>\<open>onSourceSetNotReady\<close>, which finds the waiting
  client and panics with "not possible".
\<close>

theorem waiting_client_at_not_ready:
  "reachable confOnDemandCmd ''p'' paDescribedWhileRecording
   \<and> map_of (clients paDescribedWhileRecording) 1 = Some clientStateRecord
   \<and> map_of (clients paDescribedWhileRecording) 2 = Some clientStateWaitingDescribe
   \<and> sourceState paDescribedWhileRecording = sourceStateWaitingDescribe
   \<and> step (ClientRemove 1) paDescribedWhileRecording = Panic ''not possible''"
proof -
  have "map_of (clients paDescribedWhileRecording) 1 = Some clientStateRecord" by code_simp
  moreover have "map_of (clients paDescribedWhileRecording) 2 = Some clientStateWaitingDescribe"
    by code_simp
  moreover have "sourceState paDescribedWhileRecording = sourceStateWaitingDescribe"
    by code_simp
  moreover have "step (ClientRemove 1) paDescribedWhileRecording = Panic ''not possible''"
    by code_simp
  ultimately show ?thesis using reachable_paDescribedWhileRecording by simp
qed

subsection \<open>The describe timer and the ready source\<close>

text \<open>
  C7. When the describe timer branch runs in a reachable state, it returns. Its loop leaves
  the source state as it was, and moves every client that was in
  \<^verbatim>\<open>clientStateWaitingDescribe\<close> to \<^verbatim>\<open>clientStatePreRemove\<close> and no other client; the trace
  grows by one \<^verbatim>\<open>OnPathDescribeData(nil, "", err)\<close> for each of these clients, with
  \<^verbatim>\<open>err\<close> the error "publisher of path '<name>' has timed out", and by nothing else.
  Only then is the source state set to not ready, and the schedule checks run on that path,
  in which no client waits.
\<close>

theorem describe_timer_fires:
  "reachable cf nm pa \<Longrightarrow>
   \<exists>p pa'. timeOutDescribers (pa\<lparr>describeTimer := None\<rparr>) = Ok p
      \<and> step DescribeTimer pa = Ok pa'
      \<and> pa' = scheduleAll (p\<lparr>sourceState := sourceStateNotReady\<rparr>)
      \<and> sourceState p = sourceState pa
      \<and> (\<forall>c. map_of (clients p) c \<noteq> Some clientStateWaitingDescribe)
      \<and> sourceState pa' = sourceStateNotReady
      \<and> (\<forall>c. map_of (clients pa') c
               = (if map_of (clients pa) c = Some clientStateWaitingDescribe
                  then Some clientStatePreRemove else map_of (clients pa) c))
      \<and> trace pa' = trace pa
           @ map (\<lambda>c. OnPathDescribeData c None [] (Some (ErrPublisherTimedOut (name pa))))
               (filter (\<lambda>c. map_of (clients pa) c = Some clientStateWaitingDescribe)
                  (map fst (clients pa)))
      \<and> (\<forall>c. filter (describeDataFor c) (drop (length (trace pa)) (trace pa'))
               = (if map_of (clients pa) c = Some clientStateWaitingDescribe
                  then [OnPathDescribeData c None [] (Some (ErrPublisherTimedOut (name pa)))]
                  else []))
      \<and> Error (ErrPublisherTimedOut (name pa))
          = ''publisher of path '' @ [CHR 0x27] @ name pa @ [CHR 0x27] @ '' has timed out''"
proof -
  assume r: "reachable cf nm pa"
  note i = reachable_inv [OF r]
  define p0 where "p0 = pa\<lparr>describeTimer := None\<rparr>"
  have d0: "distinct (map fst (clients p0))" using invD(1) [OF i] by (simp add: p0_def)
  have "invSource p0 = invSource pa" by (rule invSource_cong) (simp_all add: p0_def)
  with invD(2) [OF i] have s0: "invSource p0" by simp
  from timeOutDescribers_exact [OF d0 s0]
  obtain p where p: "timeOutDescribers p0 = Ok p"
    "\<forall>k. map_of (clients p) k
             = (if map_of (clients pa) k = Some clientStateWaitingDescribe
                then Some clientStatePreRemove else map_of (clients pa) k)"
    "trace p = trace pa
         @ map (\<lambda>c. OnPathDescribeData c None [] (Some (ErrPublisherTimedOut (name pa))))
             (filter (\<lambda>k. map_of (clients pa) k = Some clientStateWaitingDescribe)
                (map fst (clients pa)))"
    "sourceState p = sourceState pa"
    unfolding p0_def by auto
  define pa' where "pa' = scheduleAll (p\<lparr>sourceState := sourceStateNotReady\<rparr>)"
  have st: "step DescribeTimer pa = Ok pa'"
    using p(1) by (simp add: onDescribeTimer_def pa'_def p0_def)
  have nw: "\<forall>c. map_of (clients p) c \<noteq> Some clientStateWaitingDescribe"
    using p(2) by simp
  have cl: "\<forall>c. map_of (clients pa') c
               = (if map_of (clients pa) c = Some clientStateWaitingDescribe
                  then Some clientStatePreRemove else map_of (clients pa) c)"
    using p(2) by (simp add: pa'_def)
  have tr: "trace pa' = trace pa
           @ map (\<lambda>c. OnPathDescribeData c None [] (Some (ErrPublisherTimedOut (name pa))))
               (filter (\<lambda>c. map_of (clients pa) c = Some clientStateWaitingDescribe)
                  (map fst (clients pa)))"
    using p(3) by (simp add: pa'_def)
  have one: "\<forall>c. filter (describeDataFor c) (drop (length (trace pa)) (trace pa'))
               = (if map_of (clients pa) c = Some clientStateWaitingDescribe
                  then [OnPathDescribeData c None [] (Some (ErrPublisherTimedOut (name pa)))]
                  else [])"
  proof
    fix c
    have "filter (describeDataFor c)
            (map (\<lambda>c. OnPathDescribeData c None [] (Some (ErrPublisherTimedOut (name pa))))
               (filter (\<lambda>c. map_of (clients pa) c = Some clientStateWaitingDescribe)
                  (map fst (clients pa))))
          = (if c \<in> set (map fst (clients pa))
                \<and> map_of (clients pa) c = Some clientStateWaitingDescribe
             then [OnPathDescribeData c None [] (Some (ErrPublisherTimedOut (name pa)))]
             else [])"
      by (rule describeData_filter [OF _ invD(1) [OF i]]) simp
    also have "\<dots> = (if map_of (clients pa) c = Some clientStateWaitingDescribe
                  then [OnPathDescribeData c None [] (Some (ErrPublisherTimedOut (name pa)))]
                  else [])"
      using map_of_keys [of "clients pa" c] by auto
    finally show "filter (describeDataFor c) (drop (length (trace pa)) (trace pa'))
               = (if map_of (clients pa) c = Some clientStateWaitingDescribe
                  then [OnPathDescribeData c None [] (Some (ErrPublisherTimedOut (name pa)))]
                  else [])"
      by (simp add: tr)
  qed
  have sn: "sourceState pa' = sourceStateNotReady" by (simp add: pa'_def)
  have er: "Error (ErrPublisherTimedOut (name pa))
          = ''publisher of path '' @ [CHR 0x27] @ name pa @ [CHR 0x27] @ '' has timed out''"
    by simp
  from p(1) [unfolded p0_def] st p(4) nw sn cl tr one er show ?thesis
    unfolding pa'_def by blast
qed

theorem describe_timer_fires_witness:
  "reachable confOnDemandSource ''p'' paTwoWaiting
   \<and> describeTimer paTwoWaiting \<noteq> None
   \<and> map_of (clients paTwoWaiting) 1 = Some clientStateWaitingDescribe
   \<and> map_of (clients paTwoWaiting) 2 = Some clientStateWaitingDescribe
   \<and> (\<exists>pa'. step DescribeTimer paTwoWaiting = Ok pa'
         \<and> sourceState pa' = sourceStateNotReady
         \<and> map_of (clients pa') 1 = Some clientStatePreRemove
         \<and> map_of (clients pa') 2 = Some clientStatePreRemove
         \<and> filter (describeDataFor 1) (drop (length (trace paTwoWaiting)) (trace pa'))
             = [OnPathDescribeData 1 None [] (Some (ErrPublisherTimedOut (name paTwoWaiting)))]
         \<and> filter (describeDataFor 2) (drop (length (trace paTwoWaiting)) (trace pa'))
             = [OnPathDescribeData 2 None [] (Some (ErrPublisherTimedOut (name paTwoWaiting)))])
   \<and> Error (ErrPublisherTimedOut (name paTwoWaiting)) = ''publisher of path 'p' has timed out''"
proof -
  have a: "describeTimer paTwoWaiting \<noteq> None" by code_simp
  have b: "map_of (clients paTwoWaiting) 1 = Some clientStateWaitingDescribe" by code_simp
  have c: "map_of (clients paTwoWaiting) 2 = Some clientStateWaitingDescribe" by code_simp
  have n: "name paTwoWaiting = ''p''" by code_simp
  from describe_timer_fires [OF reachable_paTwoWaiting]
  obtain pa' where pa': "step DescribeTimer paTwoWaiting = Ok pa'"
    "sourceState pa' = sourceStateNotReady"
    "\<forall>c. map_of (clients pa') c
               = (if map_of (clients paTwoWaiting) c = Some clientStateWaitingDescribe
                  then Some clientStatePreRemove else map_of (clients paTwoWaiting) c)"
    "\<forall>c. filter (describeDataFor c) (drop (length (trace paTwoWaiting)) (trace pa'))
               = (if map_of (clients paTwoWaiting) c = Some clientStateWaitingDescribe
                  then [OnPathDescribeData c None []
                          (Some (ErrPublisherTimedOut (name paTwoWaiting)))]
                  else [])"
    by blast
  have "Error (ErrPublisherTimedOut (name paTwoWaiting)) = ''publisher of path 'p' has timed out''"
    by (simp add: n)
  with pa' a b c reachable_paTwoWaiting show ?thesis by auto
qed

text \<open>
  C8. \<^verbatim>\<open>onSourceSetReady\<close> runs on the path of a reachable state in which either the source
  has stored its tracks (\<^verbatim>\<open>OnSourceSetReady\<close>) or a client in \<^verbatim>\<open>clientStatePreRecord\<close> has
  been moved to \<^verbatim>\<open>clientStateRecord\<close> (\<^verbatim>\<open>onClientRecord\<close>). It returns; the describe timer
  is stopped if the source state was waiting and is left alone otherwise; the source state
  is ready; every client that was in \<^verbatim>\<open>clientStateWaitingDescribe\<close> is in
  \<^verbatim>\<open>clientStatePreRemove\<close> and no other client has changed; and the trace grows by one
  \<^verbatim>\<open>OnPathDescribeData(sdp, "", nil)\<close> with the stored description for each of these
  clients, and by nothing else.
\<close>

theorem source_ready_replies:
  "reachable cf nm pa \<Longrightarrow>
   p = pa\<lparr>sourceSdp := Some (TracksWrite ts), sourceTrackCount := int (length ts)\<rparr>
   \<or> (\<exists>c. map_of (clients pa) c = Some clientStatePreRecord
          \<and> p = pa\<lparr>countPublishers := countPublishers pa + 1,
                   clients := AList.update c clientStateRecord (clients pa)\<rparr>) \<Longrightarrow>
   \<exists>pa'. onSourceSetReady p = Ok pa'
      \<and> describeTimer pa'
          = (if sourceState p = sourceStateWaitingDescribe then None else describeTimer p)
      \<and> sourceState pa' = sourceStateReady
      \<and> (\<forall>c. map_of (clients pa') c
               = (if map_of (clients p) c = Some clientStateWaitingDescribe
                  then Some clientStatePreRemove else map_of (clients p) c))
      \<and> trace pa' = trace p
           @ map (\<lambda>c. OnPathDescribeData c (sourceSdp p) [] None)
               (filter (\<lambda>c. map_of (clients p) c = Some clientStateWaitingDescribe)
                  (map fst (clients p)))
      \<and> (\<forall>c. filter (describeDataFor c) (drop (length (trace p)) (trace pa'))
               = (if map_of (clients p) c = Some clientStateWaitingDescribe
                  then [OnPathDescribeData c (sourceSdp p) [] None] else []))"
proof -
  assume r: "reachable cf nm pa"
    and form: "p = pa\<lparr>sourceSdp := Some (TracksWrite ts), sourceTrackCount := int (length ts)\<rparr>
   \<or> (\<exists>c. map_of (clients pa) c = Some clientStatePreRecord
          \<and> p = pa\<lparr>countPublishers := countPublishers pa + 1,
                   clients := AList.update c clientStateRecord (clients pa)\<rparr>)"
  note i = reachable_inv [OF r]
  have ds: "distinct (map fst (clients p)) \<and> invSource p"
    using form
  proof
    assume e: "p = pa\<lparr>sourceSdp := Some (TracksWrite ts), sourceTrackCount := int (length ts)\<rparr>"
    have "invSource p = invSource pa" unfolding e by (rule invSource_cong) simp_all
    with invD(1,2) [OF i] show ?thesis by (simp add: e)
  next
    assume "\<exists>c. map_of (clients pa) c = Some clientStatePreRecord
          \<and> p = pa\<lparr>countPublishers := countPublishers pa + 1,
                   clients := AList.update c clientStateRecord (clients pa)\<rparr>"
    then obtain c where c: "map_of (clients pa) c = Some clientStatePreRecord"
      and e: "p = pa\<lparr>countPublishers := countPublishers pa + 1,
                   clients := AList.update c clientStateRecord (clients pa)\<rparr>" by blast
    let ?q = "pa\<lparr>clients := AList.update c clientStateRecord (clients pa)\<rparr>"
    have iq: "pathInv ?q" by (rule setState_inv [OF i c]) (simp_all add: isPublisher_def)
    have "invSource p = invSource ?q" unfolding e by (rule invSource_cong) simp_all
    with invD(1,2) [OF iq] show ?thesis by (simp add: e)
  qed
  define p1 where "p1 = (if sourceState p = sourceStateWaitingDescribe
                   then p\<lparr>describeTimer := None\<rparr> else p)"
  define p2 where "p2 = p1\<lparr>sourceState := sourceStateReady\<rparr>"
  have f2: "clients p2 = clients p" "source p2 = source p" "conf p2 = conf p"
    "sourceSdp p2 = sourceSdp p" "trace p2 = trace p" "name p2 = name p"
    "describeTimer p2
       = (if sourceState p = sourceStateWaitingDescribe then None else describeTimer p)"
    "sourceState p2 = sourceStateReady"
    by (simp_all add: p2_def p1_def)
  have "invSource p2 = invSource p" by (rule invSource_cong) (simp_all add: f2)
  with ds have d2: "distinct (map fst (clients p2))" and s2: "invSource p2"
    by (simp_all add: f2)
  from replyToDescribers_exact [OF d2 s2]
  obtain p3 where p3: "replyToDescribers p2 = Ok p3"
    "\<forall>k. map_of (clients p3) k
             = (if map_of (clients p) k = Some clientStateWaitingDescribe
                then Some clientStatePreRemove else map_of (clients p) k)"
    "trace p3 = trace p
         @ map (\<lambda>c. OnPathDescribeData c (sourceSdp p) [] None)
             (filter (\<lambda>k. map_of (clients p) k = Some clientStateWaitingDescribe)
                (map fst (clients p)))"
    "sourceState p3 = sourceStateReady"
    "describeTimer p3
       = (if sourceState p = sourceStateWaitingDescribe then None else describeTimer p)"
    unfolding f2 by auto
  define pa' where "pa' = scheduleAll p3"
  have run: "onSourceSetReady p = Ok pa'"
    using p3(1) by (simp add: onSourceSetReady_def Let_def p2_def p1_def pa'_def)
  have tr: "trace pa' = trace p
           @ map (\<lambda>c. OnPathDescribeData c (sourceSdp p) [] None)
               (filter (\<lambda>c. map_of (clients p) c = Some clientStateWaitingDescribe)
                  (map fst (clients p)))"
    using p3(3) by (simp add: pa'_def)
  have one: "\<forall>c. filter (describeDataFor c) (drop (length (trace p)) (trace pa'))
               = (if map_of (clients p) c = Some clientStateWaitingDescribe
                  then [OnPathDescribeData c (sourceSdp p) [] None] else [])"
  proof
    fix c
    have "filter (describeDataFor c)
            (map (\<lambda>c. OnPathDescribeData c (sourceSdp p) [] None)
               (filter (\<lambda>c. map_of (clients p) c = Some clientStateWaitingDescribe)
                  (map fst (clients p))))
          = (if c \<in> set (map fst (clients p))
                \<and> map_of (clients p) c = Some clientStateWaitingDescribe
             then [OnPathDescribeData c (sourceSdp p) [] None] else [])"
      by (rule describeData_filter [OF _ conjunct1 [OF ds]]) simp
    also have "\<dots> = (if map_of (clients p) c = Some clientStateWaitingDescribe
                  then [OnPathDescribeData c (sourceSdp p) [] None] else [])"
      using map_of_keys [of "clients p" c] by auto
    finally show "filter (describeDataFor c) (drop (length (trace p)) (trace pa'))
               = (if map_of (clients p) c = Some clientStateWaitingDescribe
                  then [OnPathDescribeData c (sourceSdp p) [] None] else [])"
      by (simp add: tr)
  qed
  have "describeTimer pa'
          = (if sourceState p = sourceStateWaitingDescribe then None else describeTimer p)"
    using p3(5) by (simp add: pa'_def)
  moreover have "sourceState pa' = sourceStateReady" using p3(4) by (simp add: pa'_def)
  moreover have "\<forall>c. map_of (clients pa') c
               = (if map_of (clients p) c = Some clientStateWaitingDescribe
                  then Some clientStatePreRemove else map_of (clients p) c)"
    using p3(2) by (simp add: pa'_def)
  ultimately show ?thesis using run tr one by blast
qed

theorem source_ready_replies_witness:
  "reachable confOnDemandSource ''p'' paTwoWaiting
   \<and> sourceState paTwoWaiting = sourceStateWaitingDescribe
   \<and> map_of (clients paTwoWaiting) 1 = Some clientStateWaitingDescribe
   \<and> map_of (clients paTwoWaiting) 2 = Some clientStateWaitingDescribe
   \<and> (\<exists>pa'. step (SourceSetReady [7, 8]) paTwoWaiting = Ok pa'
         \<and> describeTimer pa' = None \<and> sourceState pa' = sourceStateReady
         \<and> map_of (clients pa') 1 = Some clientStatePreRemove
         \<and> map_of (clients pa') 2 = Some clientStatePreRemove
         \<and> filter (describeDataFor 1) (drop (length (trace paTwoWaiting)) (trace pa'))
             = [OnPathDescribeData 1 (Some (TracksWrite [7, 8])) [] None]
         \<and> filter (describeDataFor 2) (drop (length (trace paTwoWaiting)) (trace pa'))
             = [OnPathDescribeData 2 (Some (TracksWrite [7, 8])) [] None])"
proof -
  have a: "sourceState paTwoWaiting = sourceStateWaitingDescribe" by code_simp
  have b: "map_of (clients paTwoWaiting) 1 = Some clientStateWaitingDescribe" by code_simp
  have c: "map_of (clients paTwoWaiting) 2 = Some clientStateWaitingDescribe" by code_simp
  let ?p = "paTwoWaiting\<lparr>sourceSdp := Some (TracksWrite [7, 8]),
                           sourceTrackCount := int (length [7, 8 :: nat])\<rparr>"
  from source_ready_replies [OF reachable_paTwoWaiting, where p = ?p and ts = "[7, 8]"]
  obtain pa' where pa': "onSourceSetReady ?p = Ok pa'"
    "describeTimer pa'
          = (if sourceState ?p = sourceStateWaitingDescribe then None else describeTimer ?p)"
    "sourceState pa' = sourceStateReady"
    "\<forall>c. map_of (clients pa') c
               = (if map_of (clients ?p) c = Some clientStateWaitingDescribe
                  then Some clientStatePreRemove else map_of (clients ?p) c)"
    "\<forall>c. filter (describeDataFor c) (drop (length (trace ?p)) (trace pa'))
               = (if map_of (clients ?p) c = Some clientStateWaitingDescribe
                  then [OnPathDescribeData c (sourceSdp ?p) [] None] else [])"
    by blast
  have "step (SourceSetReady [7, 8]) paTwoWaiting = Ok pa'" using pa'(1) by simp
  with pa'(2-5) a b c reachable_paTwoWaiting show ?thesis by auto
qed

subsection \<open>Describe, SetupPlay and Play\<close>



text \<open>
  C1. While client 1 records one track, client 2 describes, sets up track 0 and plays with
  no \<^verbatim>\<open>clientRemove\<close> in between. The Describe leaves client 2 in the map in
  \<^verbatim>\<open>clientStatePreRemove\<close>, so SetupPlay does not add it and Play does nothing: the reader
  counter is still 0, client 2 is not in state Play and not in the readers map.
\<close>

theorem describe_setup_play_keeps_PreRemove:
  "reachable confRecord ''p'' paPublishing
   \<and> sourceState paPublishing = sourceStateReady
   \<and> map_of (clients paPublishing) 1 = Some clientStateRecord
   \<and> map_of (clients paPublishing) 2 = None
   \<and> countReaders paPublishing = 0
   \<and> runs [ClientDescribe 2, ClientSetupPlay 2 0, ClientPlay 2] paPublishing
       = Some paDescribedThenPlayed
   \<and> countReaders paDescribedThenPlayed = 0
   \<and> map_of (clients paDescribedThenPlayed) 2 = Some clientStatePreRemove
   \<and> 2 \<notin> readers paDescribedThenPlayed"
proof -
  have "sourceState paPublishing = sourceStateReady" by code_simp
  moreover have "map_of (clients paPublishing) 1 = Some clientStateRecord" by code_simp
  moreover have "map_of (clients paPublishing) 2 = None" by code_simp
  moreover have "countReaders paPublishing = 0" by code_simp
  moreover have "runs [ClientDescribe 2, ClientSetupPlay 2 0, ClientPlay 2] paPublishing
       = Some paDescribedThenPlayed" by code_simp
  moreover have "countReaders paDescribedThenPlayed = 0" by code_simp
  moreover have "map_of (clients paDescribedThenPlayed) 2 = Some clientStatePreRemove"
    by code_simp
  moreover have "2 \<notin> readers paDescribedThenPlayed" by code_simp
  ultimately show ?thesis using reachable_paPublishing by simp
qed

lemma play_after_setup:
  assumes "map_of (clients p) c = Some clientStatePrePlay"
  shows "\<exists>p'. step (ClientPlay c) p = Ok p'
     \<and> map_of (clients p') c = Some clientStatePlay
     \<and> countReaders p' = countReaders p + 1 \<and> c \<in> readers p'"
  using assms by (simp add: onClientPlay_def update_conv' readersAdd_def emit_def)

lemma setup_new_client:
  assumes "sourceState p = sourceStateReady" "0 < sourceTrackCount p"
    and "map_of (clients p) c = None"
  shows "\<exists>p'. step (ClientSetupPlay c 0) p = Ok p'
     \<and> map_of (clients p') c = Some clientStatePrePlay
     \<and> countReaders p' = countReaders p"
  using assms by (simp add: onClientSetupPlay_def addClient_def map_add_def)

lemma remove_described:
  assumes "map_of (clients p) c = Some clientStatePreRemove"
  shows "\<exists>p'. step (ClientRemove c) p = Ok p'
     \<and> map_of (clients p') c = None
     \<and> sourceState p' = sourceState p \<and> sourceTrackCount p' = sourceTrackCount p
     \<and> countReaders p' = countReaders p"
  using assms by (simp add: onClientRemove_def delete_conv')

text \<open>
  C1, as amended. In a reachable state in which the source state is ready, a client records,
  at least one track is announced and no on-demand command is left to start, a client that
  is not in the clients map and issues Describe, then ClientRemove, then SetupPlay with
  track index 0, then Play ends in state Play and in the readers map, and the reader counter
  is one more than before.
\<close>

theorem describe_remove_setup_play:
  "reachable cf nm pa \<Longrightarrow> sourceState pa = sourceStateReady \<Longrightarrow>
   map_of (clients pa) s = Some clientStateRecord \<Longrightarrow> map_of (clients pa) c = None \<Longrightarrow>
   0 < sourceTrackCount pa \<Longrightarrow> RunOnDemand (conf pa) = [] \<or> onDemandCmd pa \<noteq> None \<Longrightarrow>
   \<exists>pa'. runs [ClientDescribe c, ClientRemove c, ClientSetupPlay c 0, ClientPlay c] pa = Some pa'
     \<and> countReaders pa' = countReaders pa + 1
     \<and> map_of (clients pa') c = Some clientStatePlay
     \<and> c \<in> readers pa'"
proof -
  assume r: "reachable cf nm pa" and rd: "sourceState pa = sourceStateReady"
    and s: "map_of (clients pa) s = Some clientStateRecord"
    and none: "map_of (clients pa) c = None" and tc: "0 < sourceTrackCount pa"
    and cmd: "RunOnDemand (conf pa) = [] \<or> onDemandCmd pa \<noteq> None"
  from invSourceD(1) [OF invD(2) [OF reachable_inv [OF r]] s]
  have src: "source pa = ClientSource s" by (simp add: isPublisher_def)
  define p where "p = startOnDemandCmd (startOnDemandSource (cancelCloseTimers
                  (emit (ClientDescribeRes c None) pa)))"
  have f0: "source (cancelCloseTimers (emit (ClientDescribeRes c None) pa)) = ClientSource s"
    "sourceState (cancelCloseTimers (emit (ClientDescribeRes c None) pa)) = sourceStateReady"
    "onDemandCmd (cancelCloseTimers (emit (ClientDescribeRes c None) pa)) = onDemandCmd pa"
    using src rd by simp_all
  have f1: "startOnDemandSource (cancelCloseTimers (emit (ClientDescribeRes c None) pa))
            = cancelCloseTimers (emit (ClientDescribeRes c None) pa)"
    using f0(1) by (simp add: startOnDemandSource_def)
  have f2: "p = cancelCloseTimers (emit (ClientDescribeRes c None) pa)"
    using cmd f0(3) by (auto simp: p_def f1 startOnDemandCmd_def)
  have ps: "sourceState p = sourceStateReady" "sourceTrackCount p = sourceTrackCount pa"
    "countReaders p = countReaders pa" "clients p = clients pa"
    using rd by (simp_all add: f2)
  from describe_immediate [OF r none p_def] ps(1)
  obtain p1 x where st1: "step (ClientDescribe c) pa = Ok p1"
    and p1: "p1 = emit x (scheduleAll (p\<lparr>clients := clients p @ [(c, clientStatePreRemove)]\<rparr>))"
    by blast
  have q1: "map_of (clients p1) c = Some clientStatePreRemove"
    "sourceState p1 = sourceStateReady" "sourceTrackCount p1 = sourceTrackCount pa"
    "countReaders p1 = countReaders pa"
    using none ps by (simp_all add: p1 map_add_def)
  from remove_described [OF q1(1)] q1
  obtain p2 where st2: "step (ClientRemove c) p1 = Ok p2"
    and q2: "map_of (clients p2) c = None" "sourceState p2 = sourceStateReady"
      "sourceTrackCount p2 = sourceTrackCount pa" "countReaders p2 = countReaders pa"
    by auto
  from setup_new_client [OF q2(2) _ q2(1)] tc q2
  obtain p3 where st3: "step (ClientSetupPlay c 0) p2 = Ok p3"
    and q3: "map_of (clients p3) c = Some clientStatePrePlay" "countReaders p3 = countReaders pa"
    by auto
  from play_after_setup [OF q3(1)] q3(2)
  obtain p4 where st4: "step (ClientPlay c) p3 = Ok p4"
    and q4: "map_of (clients p4) c = Some clientStatePlay"
      "countReaders p4 = countReaders pa + 1" "c \<in> readers p4"
    by auto
  have "runs [ClientDescribe c, ClientRemove c, ClientSetupPlay c 0, ClientPlay c] pa = Some p4"
    using st1 st2 st3 st4 by simp
  with q4 show ?thesis by blast
qed

theorem describe_remove_setup_play_witness:
  "reachable confRecord ''p'' paPublishing \<and> sourceState paPublishing = sourceStateReady
   \<and> map_of (clients paPublishing) 1 = Some clientStateRecord
   \<and> map_of (clients paPublishing) 2 = None \<and> 0 < sourceTrackCount paPublishing
   \<and> RunOnDemand (conf paPublishing) = [] \<and> countReaders paPublishing = 0
   \<and> (\<exists>pa'. runs [ClientDescribe 2, ClientRemove 2, ClientSetupPlay 2 0, ClientPlay 2]
               paPublishing = Some pa'
         \<and> countReaders pa' = 1 \<and> map_of (clients pa') 2 = Some clientStatePlay
         \<and> 2 \<in> readers pa')"
proof -
  have a: "sourceState paPublishing = sourceStateReady" by code_simp
  have b: "map_of (clients paPublishing) 1 = Some clientStateRecord" by code_simp
  have c: "map_of (clients paPublishing) 2 = None" by code_simp
  have d: "0 < sourceTrackCount paPublishing" by code_simp
  have e: "RunOnDemand (conf paPublishing) = []" by code_simp
  have f: "countReaders paPublishing = 0" by code_simp
  from e have e': "RunOnDemand (conf paPublishing) = [] \<or> onDemandCmd paPublishing \<noteq> None"
    by simp
  from describe_remove_setup_play [OF reachable_paPublishing a b c d e'] f
  have "\<exists>pa'. runs [ClientDescribe 2, ClientRemove 2, ClientSetupPlay 2 0, ClientPlay 2]
               paPublishing = Some pa'
         \<and> countReaders pa' = 1 \<and> map_of (clients pa') 2 = Some clientStatePlay
         \<and> 2 \<in> readers pa'" by auto
  with a b c d e f reachable_paPublishing show ?thesis by blast
qed

end
